theory Spec2Isabelle
  imports Main "HOL-Library.AList"
begin

section \<open>Key-value observation (mixins/observable.js)\<close>

subsection \<open>Values, descriptors and the observable object\<close>

text \<open>
  JavaScript values as far as the mixin looks at them: \<open>===\<close> on primitives compares the
  value and on functions and objects the reference, so a function is \<open>Fn\<close> of its identity
  and an object \<open>Obj\<close> of its address. The numbers are the integers and \<open>NaN\<close>, which is
  falsy and is the one value that \<open>===\<close> does not find equal to itself.
\<close>

datatype val = Undefined | Null | VBool bool | Num int | NaN | Str string | Fn nat | Obj nat

fun truthy :: "val \<Rightarrow> bool" where
  "truthy Undefined = False"
| "truthy Null = False"
| "truthy (VBool b) = b"
| "truthy (Num n) = (n \<noteq> 0)"
| "truthy NaN = False"
| "truthy (Str s) = (s \<noteq> [])"
| "truthy (Fn f) = True"
| "truthy (Obj a) = True"

text \<open>\<open>a !== b\<close>.\<close>

definition strict_neq :: "val \<Rightarrow> val \<Rightarrow> bool" where
  "strict_neq a b \<longleftrightarrow> a \<noteq> b \<or> a = NaN"

text \<open>
  A computed property is a function carrying \<open>isProperty\<close> and the attributes below. The
  function body is user code: it is modelled by what it returns for the receiver's property
  table, the key and the value it is called with, and it is taken not to write to the
  receiver. A missing \<open>cacheKey\<close> or \<open>lastSetValueKey\<close> is the string \<open>undefined\<close>, which
  is what JavaScript uses as the property name then.
\<close>

record desc =
  fn :: "(string \<Rightarrow> val) \<Rightarrow> string \<Rightarrow> val \<Rightarrow> val"
  isCacheable :: bool
  isVolatile :: bool
  cacheKey :: string
  lastSetValueKey :: string

text \<open>
  One member of an ObserverSet snapshot: target, method, context and the
  \<open>lastNotifiedRevision\<close> slot (\<open>member[3]\<close>), \<open>None\<close> while it has never been written.
\<close>

type_synonym member = "val \<times> val \<times> val \<times> nat option"

text \<open>A chain observer as far as \<open>addObserver\<close> and \<open>removeObserver\<close> touch it:
  the path, \<open>masterTarget\<close>, \<open>masterMethod\<close> and the context.\<close>

type_synonym chain = "string \<times> val \<times> val \<times> val"

text \<open>
  The trace records every call the mixin makes into user code, in order: the invocation of a
  computed property's function with its key and value, and the call of an observer method
  with its receiver and arguments. The phase says which loop of the notification routine
  made the call.
\<close>

datatype phase = Member | Local | Star | Hook

datatype event = Invoke nat string val | Fire phase val val "val list"

datatype error = NoMethod | TypeError | RangeError

text \<open>
  The object with its \<open>_hub_kvo_*\<close> state. \<open>props\<close> is what \<open>this[key]\<close> reads, own
  property or inherited (\<open>Undefined\<close> where there is none); \<open>descriptors\<close> gives the
  attributes of the functions that are computed properties; \<open>heap v\<close> is what \<open>v[name]\<close>
  reads on any other value \<open>v\<close>, own property or inherited.
  \<open>kvo_cache = None\<close> is a cache that is null or undefined. \<open>kvo_cachedep\<close> is \<open>None\<close>
  while the memo object does not exist; an entry of the memo is \<open>None\<close> while undefined,
  \<open>Some None\<close> when null and \<open>Some (Some fs)\<close> for an array of functions.
  \<open>kvo_dependents\<close> lists, per key, the keys that depend on it. \<open>kvo_changeLevel\<close> is a
  natural number: it starts undefined (read as 0) and the mixin only ever adds one or takes
  one away from a non-zero level. \<open>kvo_observers key\<close> is \<open>this['_kvo_observers_' + key]\<close>
  and \<open>kvo_local key\<close> is \<open>this['_kvo_local_' + key]\<close>. \<open>isObservingSuspended\<close> is the
  flag of hub.ObserverQueue as this object reads it. The object is past initObservable,
  the queue holds no deferred path observer for it and hub.LOG_OBSERVERS is false.

  The two counters \<open>_hub_kvo_revision\<close> and \<open>propertyRevision\<close> are properties of the
  object like any other, so \<open>props\<close> holds them under their names; the fields
  \<open>kvo_revision\<close> and \<open>propertyRevision\<close> hold the same numbers as naturals, which is what
  the routines count with. The record follows the program as long as the two agree
  (\<open>counters_agree\<close> below); \<open>_hub_kvo_revision\<close> is undefined until the first
  \<open>propertyDidChange\<close> and is read as 0 then.
\<close>

record obj =
  self :: nat
  props :: "string \<Rightarrow> val"
  descriptors :: "nat \<rightharpoonup> desc"
  heap :: "val \<Rightarrow> string \<Rightarrow> val"
  kvo_cache :: "(string \<Rightarrow> val) option"
  kvo_cacheable :: bool
  kvo_cachedep :: "(string \<rightharpoonup> nat list option) option"
  kvo_dependents :: "(string \<times> string list) list"
  kvo_changeLevel :: nat
  kvo_changes :: "string list option"
  kvo_revision :: nat
  propertyRevision :: nat
  kvo_observers :: "string \<rightharpoonup> member list"
  kvo_local :: "string \<rightharpoonup> string list"
  kvo_observed_keys :: "string list"
  kvo_chains :: "string \<rightharpoonup> chain option list"
  isObservingSuspended :: bool
  trace :: "event list"


text \<open>
  The assignment \<open>this[key] = value\<close>. Under the name of a counter it also moves the
  counter: to the value when that is a natural number; any other value leaves the field
  behind and the object no longer agrees with its counters.
\<close>

definition as_counter :: "val \<Rightarrow> nat \<Rightarrow> nat" where
  "as_counter v old = (case v of Num i \<Rightarrow> if 0 \<le> i then nat i else old | _ \<Rightarrow> old)"

definition this_put :: "obj \<Rightarrow> string \<Rightarrow> val \<Rightarrow> obj" where
  "this_put s key v =
     s\<lparr>props := (props s)(key := v),
       kvo_revision :=
         (if key = ''_hub_kvo_revision'' then as_counter v (kvo_revision s) else kvo_revision s),
       propertyRevision :=
         (if key = ''propertyRevision'' then as_counter v (propertyRevision s)
          else propertyRevision s)\<rparr>"

text \<open>\<open>func && func.isProperty\<close>: the function stored under the key, when it is a
  computed property.\<close>

definition computed :: "obj \<Rightarrow> string \<Rightarrow> (nat \<times> desc) option" where
  "computed s key =
     (case props s key of
        Fn f \<Rightarrow> (case descriptors s f of Some d \<Rightarrow> Some (f, d) | None \<Rightarrow> None)
      | _ \<Rightarrow> None)"

text \<open>\<open>dfunc.cacheKey\<close> and \<open>dfunc.lastSetValueKey\<close> of a function object.\<close>

definition cacheKey_of :: "obj \<Rightarrow> nat \<Rightarrow> string" where
  "cacheKey_of s f = (case descriptors s f of Some d \<Rightarrow> cacheKey d | None \<Rightarrow> ''undefined'')"

definition lastSetValueKey_of :: "obj \<Rightarrow> nat \<Rightarrow> string" where
  "lastSetValueKey_of s f =
     (case descriptors s f of Some d \<Rightarrow> lastSetValueKey d | None \<Rightarrow> ''undefined'')"

text \<open>The cache read as an object: a key never written reads \<open>undefined\<close>.\<close>

definition cache_of :: "obj \<Rightarrow> string \<Rightarrow> val" where
  "cache_of s = (case kvo_cache s of None \<Rightarrow> (\<lambda>k. Undefined) | Some c \<Rightarrow> c)"

subsection \<open>CoreSet and ObserverSet\<close>

text \<open>
  Modelled from the spec: hub.CoreSet (core.js is not among the sources), "a set of pending
  keys" that is indexed like an array and popped in LIFO order. \<open>add\<close> appends a key that
  is not yet a member, \<open>addEach\<close> adds the members of another set in their order, \<open>pop\<close>
  takes the last member.
\<close>

definition CoreSet_add :: "string list \<Rightarrow> string \<Rightarrow> string list" where
  "CoreSet_add cs k = (if k \<in> set cs then cs else cs @ [k])"

definition CoreSet_addEach :: "string list \<Rightarrow> string list \<Rightarrow> string list" where
  "CoreSet_addEach cs ks = fold (\<lambda>k acc. CoreSet_add acc k) ks cs"

definition CoreSet_remove :: "string list \<Rightarrow> string \<Rightarrow> string list" where
  "CoreSet_remove cs k = filter (\<lambda>x. x \<noteq> k) cs"

text \<open>
  Modelled from the spec: hub.ObserverSet (private/observer_set.js is not among the
  sources). \<open>add(target, method, context)\<close> is idempotent on the pair and overwrites the
  context, \<open>remove(target, method)\<close> drops the pair, \<open>getMembers()\<close> is the list itself,
  in insertion order.
\<close>

fun ObserverSet_add :: "member list \<Rightarrow> val \<Rightarrow> val \<Rightarrow> val \<Rightarrow> member list" where
  "ObserverSet_add [] t m c = [(t, m, c, None)]"
| "ObserverSet_add ((t', m', c', r') # ms) t m c =
     (if t' = t \<and> m' = m then (t', m', c, r') # ms
      else (t', m', c', r') # ObserverSet_add ms t m c)"

definition ObserverSet_remove :: "member list \<Rightarrow> val \<Rightarrow> val \<Rightarrow> member list" where
  "ObserverSet_remove ms t m = filter (\<lambda>(t', m', c', r'). \<not> (t' = t \<and> m' = m)) ms"

subsection \<open>get, unknownProperty and the cached dependents\<close>

definition automaticallyNotifiesObserversFor :: "obj \<Rightarrow> string \<Rightarrow> bool" where
  "automaticallyNotifiesObserversFor s key = True"

definition unknownProperty :: "obj \<Rightarrow> string \<Rightarrow> val \<Rightarrow> val \<times> obj" where
  "unknownProperty s key value =
     (if value \<noteq> Undefined then (value, this_put s key value)
      else (value, s))"

definition get :: "obj \<Rightarrow> string \<Rightarrow> val \<times> obj" where
  "get s key =
     (let ret = props s key in
      if ret = Undefined then unknownProperty s key Undefined
      else (case computed s key of
              Some (f, d) \<Rightarrow>
                if isCacheable d then
                  (let cache = cache_of s;
                       s1 = s\<lparr>kvo_cache := Some cache\<rparr>
                   in if cache (cacheKey d) \<noteq> Undefined then (cache (cacheKey d), s1)
                      else (let r = fn d (props s) key Undefined
                            in (r, s1\<lparr>kvo_cache := Some (cache(cacheKey d := r)),
                                      trace := trace s @ [Invoke f key Undefined]\<rparr>)))
                else (fn d (props s) key Undefined,
                      s\<lparr>trace := trace s @ [Invoke f key Undefined]\<rparr>)
            | None \<Rightarrow> (ret, s)))"

definition dependents_for :: "(string \<times> string list) list \<Rightarrow> string \<Rightarrow> string list" where
  "dependents_for D key = (case map_of D key of None \<Rightarrow> [] | Some ks \<Rightarrow> ks)"

text \<open>
  \<open>_hub_kvo_addCachedDependents\<close>. The keys are given in the order the loop visits them
  (the source counts the index down, so the caller passes the reversed array). The source
  adds every key to \<open>seen\<close> and never reads it, so the set is left out. The recursion has no
  other bound than the call stack: the first argument is the number of frames left, and
  the first component of the result is False when they ran out (a RangeError).
\<close>

fun kvo_addCachedDependents :: "nat \<Rightarrow> obj \<Rightarrow> nat list \<Rightarrow> string list \<Rightarrow> bool \<times> nat list" where
  "kvo_addCachedDependents 0 s queue keys = (False, queue)"
| "kvo_addCachedDependents (Suc n) s queue [] = (True, queue)"
| "kvo_addCachedDependents (Suc n) s queue (key # keys) =
     (case computed s key of
        None \<Rightarrow> kvo_addCachedDependents (Suc n) s queue keys
      | Some (f, d) \<Rightarrow>
          (let queue1 = (if isCacheable d then queue @ [f] else queue);
               deps = dependents_for (kvo_dependents s) key
           in if deps \<noteq> [] then
                (case kvo_addCachedDependents n s queue1 (rev deps) of
                   (False, q) \<Rightarrow> (False, q)
                 | (True, q) \<Rightarrow> kvo_addCachedDependents (Suc n) s q keys)
              else kvo_addCachedDependents (Suc n) s queue1 keys))"

text \<open>
  The memo \<open>_hub_kvo_cachedep\<close> is a plain object, created by
  \<open>_hub_kvo_computeCachedDependentsFor\<close> when it does not exist. \<open>memo_of\<close> is its own
  entries and \<open>memo_put\<close> the assignment \<open>cached[key] = entry\<close>.
\<close>

definition memo_of :: "obj \<Rightarrow> string \<rightharpoonup> nat list option" where
  "memo_of s = (case kvo_cachedep s of None \<Rightarrow> Map.empty | Some m \<Rightarrow> m)"

definition memo_put :: "obj \<Rightarrow> string \<Rightarrow> nat list option \<Rightarrow> obj" where
  "memo_put s key entry = s\<lparr>kvo_cachedep := Some ((memo_of s)(key \<mapsto> entry))\<rparr>"

text \<open>
  A plain object inherits the members of Object.prototype, so reading the memo under one
  of their names finds the inherited function where the memo has no entry of its own. The
  table gives the names with the \<open>length\<close> of each function (ECMAScript 5, with the four
  accessor helpers that the engines add); \<open>__proto__\<close> is not a key here.
\<close>

definition object_prototype :: "string \<rightharpoonup> nat" where
  "object_prototype =
     [''constructor'' \<mapsto> 1, ''hasOwnProperty'' \<mapsto> 1, ''isPrototypeOf'' \<mapsto> 1,
      ''propertyIsEnumerable'' \<mapsto> 1, ''toLocaleString'' \<mapsto> 0, ''toString'' \<mapsto> 0,
      ''valueOf'' \<mapsto> 0, ''__defineGetter__'' \<mapsto> 2, ''__defineSetter__'' \<mapsto> 2,
      ''__lookupGetter__'' \<mapsto> 1, ''__lookupSetter__'' \<mapsto> 1]"

text \<open>\<open>_hub_kvo_computeCachedDependentsFor\<close>: the outcome, the returned queue (\<open>None\<close> for
  null) and the object with the memo written. \<open>cached[key]\<close> is the queue array itself,
  so it holds what was pushed when the stack runs out.\<close>

definition kvo_computeCachedDependentsFor ::
  "nat \<Rightarrow> obj \<Rightarrow> string \<Rightarrow> error option \<times> nat list option \<times> obj" where
  "kvo_computeCachedDependentsFor n s key =
     (let keys = dependents_for (kvo_dependents s) key in
      if keys = [] then (None, None, memo_put s key None)
      else (case kvo_addCachedDependents n s [] (rev keys) of
              (False, q) \<Rightarrow> (Some RangeError, None, memo_put s key (Some q))
            | (True, q) \<Rightarrow>
                if q = [] then (None, None, memo_put s key None)
                else (None, Some q, memo_put s key (Some q))))"

text \<open>\<open>cache[dfunc.cacheKey] = cache[dfunc.lastSetValueKey] = undefined\<close> for one
  function, and for an array of them from the last to the first.\<close>

definition clear_slots :: "obj \<Rightarrow> nat \<Rightarrow> (string \<Rightarrow> val) \<Rightarrow> (string \<Rightarrow> val)" where
  "clear_slots s f c = c(lastSetValueKey_of s f := Undefined, cacheKey_of s f := Undefined)"

definition clear_cachedep :: "obj \<Rightarrow> nat list option \<Rightarrow> obj" where
  "clear_cachedep s cachedep =
     (case cachedep of
        None \<Rightarrow> s
      | Some fs \<Rightarrow> s\<lparr>kvo_cache := Some (fold (clear_slots s) (rev fs) (cache_of s))\<rparr>)"

text \<open>
  The block that \<open>set\<close> and \<open>propertyDidChange\<close> both contain ("inlined for perf"),
  entered when \<open>_hub_kvo_cacheable\<close> holds and the cache exists: look the cached dependents
  of the key up, compute them when there is no memo or \<open>cachedep[key]\<close> is undefined, and
  clear their slots. Where an existing memo has no entry of its own and the key names a
  member of Object.prototype, \<open>cachedep[key]\<close> is the inherited function: nothing is
  computed, the loop starts at its \<open>length\<close>, \<open>cachedep[idx]\<close> is undefined and
  \<open>dfunc.cacheKey\<close> throws a TypeError when the length is not 0.
\<close>

definition memo_inherited :: "obj \<Rightarrow> string \<Rightarrow> nat option" where
  "memo_inherited s key =
     (if kvo_cachedep s = None \<or> memo_of s key \<noteq> None then None else object_prototype key)"

definition clear_cached_dependents :: "nat \<Rightarrow> obj \<Rightarrow> string \<Rightarrow> error option \<times> obj" where
  "clear_cached_dependents n s key =
     (case memo_of s key of
        Some cachedep \<Rightarrow> (None, clear_cachedep s cachedep)
      | None \<Rightarrow>
          (case memo_inherited s key of
             Some len \<Rightarrow> if 0 < len then (Some TypeError, s) else (None, s)
           | None \<Rightarrow>
               (case kvo_computeCachedDependentsFor n s key of
                  (Some e, cachedep, s1) \<Rightarrow> (Some e, s1)
                | (None, cachedep, s1) \<Rightarrow> (None, clear_cachedep s1 cachedep))))"

subsection \<open>The notification routine\<close>

text \<open>
  \<open>method.call(target, ...)\<close>. Observer methods are user code: the call is recorded in
  the trace and the callback is taken to return without touching the observed object.
  Calling a value that is not a function is a TypeError, which leaves the routine at once.
\<close>

definition call_method :: "phase \<Rightarrow> obj \<Rightarrow> val \<Rightarrow> val \<Rightarrow> val list \<Rightarrow> error option \<times> obj" where
  "call_method ph s method target args =
     (case method of
        Fn f \<Rightarrow> (None, s\<lparr>trace := trace s @ [Fire ph method target args]\<rparr>)
      | _ \<Rightarrow> (Some TypeError, s))"

text \<open>The arguments of an observer call: with a context
  \<open>(this, key, null, context, rev)\<close>, without one \<open>(this, key, null, rev)\<close>.\<close>

definition observer_args :: "obj \<Rightarrow> string \<Rightarrow> val \<Rightarrow> nat \<Rightarrow> val list" where
  "observer_args s key context rv =
     (if context \<noteq> Undefined then [Obj (self s), Str key, Null, context, Num (int rv)]
      else [Obj (self s), Str key, Null, Num (int rv)])"

text \<open>\<open>member[3] = rev\<close> on the member at index \<open>i\<close> of the key's ObserverSet.\<close>

definition mark_notified :: "obj \<Rightarrow> string \<Rightarrow> nat \<Rightarrow> nat \<Rightarrow> obj" where
  "mark_notified s key i rv =
     (case kvo_observers s key of
        None \<Rightarrow> s
      | Some ms \<Rightarrow>
          (if i < length ms then
             (case ms ! i of
                (t, m, c, r) \<Rightarrow>
                  s\<lparr>kvo_observers := (kvo_observers s)(key \<mapsto> ms[i := (t, m, c, Some rv)])\<rparr>)
           else s))"

text \<open>The loop over the members of the key's ObserverSet, from index \<open>i\<close> on; the list
  is the part of the snapshot not yet visited.\<close>

fun fire_members :: "nat \<Rightarrow> string \<Rightarrow> nat \<Rightarrow> member list \<Rightarrow> obj \<Rightarrow> error option \<times> obj" where
  "fire_members rv key i [] s = (None, s)"
| "fire_members rv key i ((t, m, c, r) # ms) s =
     (if r = Some rv then fire_members rv key (Suc i) ms s
      else (let target = (if truthy t then t else Obj (self s));
                s1 = mark_notified s key i rv
            in case call_method Member s1 m target (observer_args s1 key c rv) of
                 (Some e, s2) \<Rightarrow> (Some e, s2)
               | (None, s2) \<Rightarrow> fire_members rv key (Suc i) ms s2))"

text \<open>The loop over the local observers: method names looked up on the receiver, called
  when the property is truthy.\<close>

fun fire_locals :: "nat \<Rightarrow> string \<Rightarrow> string list \<Rightarrow> obj \<Rightarrow> error option \<times> obj" where
  "fire_locals rv key [] s = (None, s)"
| "fire_locals rv key (member # members) s =
     (let method = props s member in
      if truthy method then
        (case call_method Local s method (Obj (self s))
                [Obj (self s), Str key, Null, Num (int rv)] of
           (Some e, s1) \<Rightarrow> (Some e, s1)
         | (None, s1) \<Rightarrow> fire_locals rv key members s1)
      else fire_locals rv key members s)"

text \<open>The loop over the star observers: no revision check and no write to the slot.\<close>

fun fire_stars :: "nat \<Rightarrow> string \<Rightarrow> member list \<Rightarrow> obj \<Rightarrow> error option \<times> obj" where
  "fire_stars rv key [] s = (None, s)"
| "fire_stars rv key ((t, m, c, r) # ms) s =
     (let target = (if truthy t then t else Obj (self s))
      in case call_method Star s m target (observer_args s key c rv) of
           (Some e, s1) \<Rightarrow> (Some e, s1)
         | (None, s1) \<Rightarrow> fire_stars rv key ms s1)"

text \<open>\<open>if (this.propertyObserver) this.propertyObserver(this, key, rev)\<close>.\<close>

definition fire_hook :: "nat \<Rightarrow> string \<Rightarrow> obj \<Rightarrow> error option \<times> obj" where
  "fire_hook rv key s =
     (if truthy (props s ''propertyObserver'') then
        call_method Hook s (props s ''propertyObserver'') (Obj (self s))
          [Obj (self s), Str key, Num (int rv)]
      else (None, s))"

text \<open>The body of \<open>while (changes.length > 0)\<close> for one popped key. \<open>star\<close> is the
  ObserverSet read from \<open>this['_kvo_observers_*']\<close> before the routine began.\<close>

definition notify_key :: "nat \<Rightarrow> member list option \<Rightarrow> string \<Rightarrow> obj \<Rightarrow> error option \<times> obj" where
  "notify_key rv star key s =
     (case (case kvo_observers s key of
              None \<Rightarrow> (None, s)
            | Some members \<Rightarrow> fire_members rv key 0 members s) of
        (Some e, s1) \<Rightarrow> (Some e, s1)
      | (None, s1) \<Rightarrow>
          (case (case kvo_local s1 key of
                   None \<Rightarrow> (None, s1)
                 | Some members \<Rightarrow> fire_locals rv key members s1) of
             (Some e, s2) \<Rightarrow> (Some e, s2)
           | (None, s2) \<Rightarrow>
               (case (case star of
                        Some members \<Rightarrow>
                          if key \<noteq> ''*'' then fire_stars rv key members s2 else (None, s2)
                      | None \<Rightarrow> (None, s2)) of
                  (Some e, s3) \<Rightarrow> (Some e, s3)
                | (None, s3) \<Rightarrow> fire_hook rv key s3)))"

text \<open>The keys in the order \<open>changes.pop()\<close> hands them out.\<close>

fun notify_keys :: "nat \<Rightarrow> member list option \<Rightarrow> string list \<Rightarrow> obj \<Rightarrow> error option \<times> obj" where
  "notify_keys rv star [] s = (None, s)"
| "notify_keys rv star (key # keys) s =
     (case notify_key rv star key s of
        (Some e, s1) \<Rightarrow> (Some e, s1)
      | (None, s1) \<Rightarrow> notify_keys rv star keys s1)"

text \<open>
  The inner statement of the dependent-key loop for one dependent key, apart from
  \<open>changes.add\<close>: a truthy property value \<open>func\<close> has \<open>this[func.cacheKey]\<close> and its two
  cache slots set to undefined. A value that is not a function has no \<open>cacheKey\<close>, so the
  name is \<open>undefined\<close>.
\<close>

definition clear_dependent :: "string \<Rightarrow> obj \<Rightarrow> obj" where
  "clear_dependent key s =
     (let func = props s key in
      if truthy func then
        (let ck = (case func of Fn f \<Rightarrow> cacheKey_of s f | _ \<Rightarrow> ''undefined'');
             lk = (case func of Fn f \<Rightarrow> lastSetValueKey_of s f | _ \<Rightarrow> ''undefined'')
         in s\<lparr>props := (props s)(ck := Undefined),
               kvo_cache := Some ((cache_of s)(lk := Undefined, ck := Undefined))\<rparr>)
      else s)"

text \<open>The bound that makes the dependent-key loop end: the set only takes keys that it
  does not hold yet, and every key it takes is a dependent of some key.\<close>

definition expand_bound :: "(string \<times> string list) list \<Rightarrow> string list \<Rightarrow> nat" where
  "expand_bound D changes =
     card (set changes \<union> set (concat (map snd D))) + (length changes - card (set changes))"

text \<open>
  \<open>for (idx = 0; idx < changes.length; idx++)\<close> over the growing set. \<open>D\<close> is the
  \<open>dependents\<close> table read before the loop. For the dependent keys of \<open>changes[idx]\<close>, from
  the last to the first, the source adds the key to the set and clears its caches in one
  inner loop; the two effects touch different data and are written as two folds.
\<close>

function expand_dependents ::
  "(string \<times> string list) list \<Rightarrow> nat \<Rightarrow> string list \<Rightarrow> obj \<Rightarrow> string list \<times> obj" where
  "expand_dependents D idx changes s =
     (if idx < length changes then
        (let keys = dependents_for D (changes ! idx) in
         if keys \<noteq> [] then
           expand_dependents D (Suc idx) (CoreSet_addEach changes (rev keys))
             (fold clear_dependent (rev keys) (s\<lparr>kvo_cache := Some (cache_of s)\<rparr>))
         else expand_dependents D (Suc idx) changes s)
      else (changes, s))"
  by pat_completeness auto

lemma length_le_expand_bound: "length cs \<le> expand_bound D cs"
proof -
  have "card (set cs) \<le> length cs" by (rule card_length)
  moreover have "card (set cs) \<le> card (set cs \<union> set (concat (map snd D)))"
    by (rule card_mono) auto
  ultimately show ?thesis unfolding expand_bound_def by linarith
qed

lemma expand_bound_add:
  assumes "k \<in> set (concat (map snd D))"
  shows "expand_bound D (CoreSet_add cs k) = expand_bound D cs"
proof (cases "k \<in> set cs")
  case True
  then show ?thesis by (simp add: CoreSet_add_def)
next
  case False
  have eq: "set (cs @ [k]) \<union> set (concat (map snd D)) = set cs \<union> set (concat (map snd D))"
    using assms by auto
  have c: "card (set (cs @ [k])) = Suc (card (set cs))" using False by simp
  have "card (set cs) \<le> length cs" by (rule card_length)
  then show ?thesis using False eq c
    unfolding expand_bound_def CoreSet_add_def by (simp only: if_False length_append list.size)
qed

lemma expand_bound_addEach:
  "set ks \<subseteq> set (concat (map snd D)) \<Longrightarrow>
   expand_bound D (CoreSet_addEach cs ks) = expand_bound D cs"
  unfolding CoreSet_addEach_def
  by (induction ks arbitrary: cs) (simp_all add: expand_bound_add)

lemma dependents_for_subset: "set (dependents_for D key) \<subseteq> set (concat (map snd D))"
proof (cases "map_of D key")
  case None
  then show ?thesis by (simp add: dependents_for_def)
next
  case (Some ks)
  then have "(key, ks) \<in> set D" by (rule map_of_SomeD)
  then show ?thesis using Some by (force simp: dependents_for_def)
qed

termination expand_dependents
proof (relation "measure (\<lambda>(D, idx, changes, s). expand_bound D changes - idx)")
  show "wf (measure (\<lambda>(D, idx, changes, s). expand_bound D changes - idx))" by simp
next
  fix D :: "(string \<times> string list) list" and idx :: nat and changes :: "string list"
    and s :: obj and x :: "string list"
  assume lt: "idx < length changes" and x: "x = dependents_for D (changes ! idx)"
  have "set (rev x) \<subseteq> set (concat (map snd D))"
    using dependents_for_subset [of D "changes ! idx"] x by simp
  then have "expand_bound D (CoreSet_addEach changes (rev x)) = expand_bound D changes"
    by (rule expand_bound_addEach)
  moreover have "idx < expand_bound D changes"
    using lt length_le_expand_bound [of changes D] by linarith
  ultimately show "((D, Suc idx, CoreSet_addEach changes (rev x),
          fold clear_dependent (rev x) (s\<lparr>kvo_cache := Some (cache_of s)\<rparr>)),
         D, idx, changes, s) \<in> measure (\<lambda>(D, idx, changes, s). expand_bound D changes - idx)"
    by simp
next
  fix D :: "(string \<times> string list) list" and idx :: nat and changes :: "string list"
    and s :: obj and x :: "string list"
  assume lt: "idx < length changes"
  have "idx < expand_bound D changes"
    using lt length_le_expand_bound [of changes D] by linarith
  then show "((D, Suc idx, changes, s), D, idx, changes, s)
      \<in> measure (\<lambda>(D, idx, changes, s). expand_bound D changes - idx)"
    by simp
qed

text \<open>The pending set \<open>_hub_kvo_changes\<close> read as a list: null or undefined holds no
  key.\<close>

definition pending_changes :: "obj \<Rightarrow> string list" where
  "pending_changes s = (case kvo_changes s of None \<Rightarrow> [] | Some cs \<Rightarrow> cs)"

text \<open>The set of changes of one turn of the outer loop before the dependent keys are
  added: the pending set with the key of the call, or for \<open>*\<close> with the star and every
  observed key.\<close>

definition pass_changes :: "obj \<Rightarrow> string option \<Rightarrow> string list" where
  "pass_changes s key =
     (case key of
        None \<Rightarrow> pending_changes s
      | Some k \<Rightarrow>
          if k = ''*'' then
            CoreSet_addEach (CoreSet_add (pending_changes s) ''*'') (kvo_observed_keys s)
          else if k \<noteq> [] then CoreSet_add (pending_changes s) k
          else pending_changes s)"

text \<open>The turn up to the end of the dependent-key loop: the revision is incremented
  (\<open>rev = ++this.propertyRevision\<close>), the pending set is replaced by null, and the loop
  runs on the set of changes. The result is the set the observers are notified for and the
  object they are called on.\<close>

definition pass_expanded :: "obj \<Rightarrow> string option \<Rightarrow> string list \<times> obj" where
  "pass_expanded s key =
     expand_dependents (kvo_dependents s) 0 (pass_changes s key)
       ((this_put s ''propertyRevision'' (Num (int (propertyRevision s + 1))))
          \<lparr>kvo_changes := None\<rparr>)"

text \<open>
  One turn of \<open>while (((changes = this._hub_kvo_changes) && (changes.length > 0)) || key)\<close>:
  after the dependent-key loop the keys are popped and notified with the new revision.
\<close>

definition notify_pass :: "member list option \<Rightarrow> obj \<Rightarrow> string option \<Rightarrow> error option \<times> obj" where
  "notify_pass star s key =
     (case pass_expanded s key of
        (changes2, s2) \<Rightarrow> notify_keys (propertyRevision s + 1) star (rev changes2) s2)"

text \<open>The condition of the outer loop: a non-empty pending set, or a truthy key.\<close>

definition notify_pending :: "obj \<Rightarrow> string option \<Rightarrow> bool" where
  "notify_pending s key =
     (pending_changes s \<noteq> [] \<or>
      (case key of None \<Rightarrow> False | Some k \<Rightarrow> k \<noteq> []))"

text \<open>What the loops over observers leave alone: every field but the ObserverSets (whose
  slots they write) and the trace.\<close>

definition fan_frame :: "obj \<Rightarrow> obj \<Rightarrow> bool" where
  "fan_frame s s' \<longleftrightarrow>
     self s' = self s \<and> props s' = props s \<and> descriptors s' = descriptors s \<and>
     heap s' = heap s \<and> kvo_cache s' = kvo_cache s \<and> kvo_cacheable s' = kvo_cacheable s \<and>
     kvo_cachedep s' = kvo_cachedep s \<and> kvo_dependents s' = kvo_dependents s \<and>
     kvo_changeLevel s' = kvo_changeLevel s \<and> kvo_changes s' = kvo_changes s \<and>
     kvo_revision s' = kvo_revision s \<and> propertyRevision s' = propertyRevision s \<and>
     kvo_local s' = kvo_local s \<and> kvo_observed_keys s' = kvo_observed_keys s \<and>
     kvo_chains s' = kvo_chains s \<and> isObservingSuspended s' = isObservingSuspended s"

lemma fan_frame_refl: "fan_frame s s"
  by (simp add: fan_frame_def)

lemma fan_frame_trans: "fan_frame s s1 \<Longrightarrow> fan_frame s1 s2 \<Longrightarrow> fan_frame s s2"
  by (simp add: fan_frame_def)

lemma call_method_frame: "call_method ph s m t args = (e, s') \<Longrightarrow> fan_frame s s'"
  unfolding call_method_def by (cases m) (auto simp: fan_frame_def)

lemma mark_notified_frame: "fan_frame s (mark_notified s key i rv)"
  unfolding mark_notified_def
  by (auto simp: fan_frame_def split: option.splits prod.splits)

lemma fire_members_frame: "fire_members rv key i ms s = (e, s') \<Longrightarrow> fan_frame s s'"
proof (induction rv key i ms s arbitrary: e s' rule: fire_members.induct)
  case (1 rv key i s)
  then show ?case by (simp add: fan_frame_refl)
next
  case (2 rv key i t m c r ms s)
  show ?case
  proof (cases "r = Some rv")
    case True
    with 2 show ?thesis by simp
  next
    case False
    define s1 where "s1 = mark_notified s key i rv"
    define tg where "tg = (if truthy t then t else Obj (self s))"
    obtain e2 s2 where cm: "call_method Member s1 m tg (observer_args s1 key c rv) = (e2, s2)"
      by (cases "call_method Member s1 m tg (observer_args s1 key c rv)")
    have f1: "fan_frame s s1" unfolding s1_def by (rule mark_notified_frame)
    have f2: "fan_frame s1 s2" using cm by (rule call_method_frame)
    have f12: "fan_frame s s2" using f1 f2 by (rule fan_frame_trans)
    show ?thesis
    proof (cases e2)
      case None
      have run: "fire_members rv key (Suc i) ms s2 = (e, s')"
        using "2.prems" False cm None by (simp add: s1_def [symmetric] tg_def [symmetric])
      have "fan_frame s2 s'"
        using "2.IH"(2) [OF False tg_def s1_def cm [symmetric, unfolded None] refl run] .
      with f12 show ?thesis by (rule fan_frame_trans)
    next
      case (Some err)
      then have "s' = s2"
        using "2.prems" False cm by (simp add: s1_def [symmetric] tg_def [symmetric])
      with f12 show ?thesis by simp
    qed
  qed
qed

lemma fire_locals_frame: "fire_locals rv key ms s = (e, s') \<Longrightarrow> fan_frame s s'"
proof (induction ms arbitrary: s e s')
  case Nil
  then show ?case by (simp add: fan_frame_refl)
next
  case (Cons a ms)
  show ?case
  proof (cases "truthy (props s a)")
    case False
    with Cons show ?thesis by simp
  next
    case True
    obtain e2 s2 where cm: "call_method Local s (props s a) (Obj (self s))
        [Obj (self s), Str key, Null, Num (int rv)] = (e2, s2)"
      by (cases "call_method Local s (props s a) (Obj (self s))
        [Obj (self s), Str key, Null, Num (int rv)]")
    have f2: "fan_frame s s2" using cm by (rule call_method_frame)
    show ?thesis
    proof (cases e2)
      case None
      then have "fire_locals rv key ms s2 = (e, s')" using Cons.prems True cm by simp
      then have "fan_frame s2 s'" by (rule Cons.IH)
      with f2 show ?thesis by (rule fan_frame_trans)
    next
      case (Some err)
      then have "s' = s2" using Cons.prems True cm by simp
      with f2 show ?thesis by simp
    qed
  qed
qed

lemma fire_stars_frame: "fire_stars rv key ms s = (e, s') \<Longrightarrow> fan_frame s s'"
proof (induction ms arbitrary: s e s')
  case Nil
  then show ?case by (simp add: fan_frame_refl)
next
  case (Cons a ms)
  obtain t m c r where a: "a = (t, m, c, r)" by (cases a)
  define tg where "tg = (if truthy t then t else Obj (self s))"
  obtain e2 s2 where cm: "call_method Star s m tg (observer_args s key c rv) = (e2, s2)"
    by (cases "call_method Star s m tg (observer_args s key c rv)")
  have f2: "fan_frame s s2" using cm by (rule call_method_frame)
  show ?case
  proof (cases e2)
    case None
    then have "fire_stars rv key ms s2 = (e, s')"
      using Cons.prems a cm by (simp add: tg_def [symmetric])
    then have "fan_frame s2 s'" by (rule Cons.IH)
    with f2 show ?thesis by (rule fan_frame_trans)
  next
    case (Some err)
    then have "s' = s2" using Cons.prems a cm by (simp add: tg_def [symmetric])
    with f2 show ?thesis by simp
  qed
qed

lemma fire_hook_frame: "fire_hook rv key s = (e, s') \<Longrightarrow> fan_frame s s'"
  unfolding fire_hook_def
  by (auto simp: fan_frame_refl dest: call_method_frame split: if_splits)

lemma notify_key_frame: "notify_key rv star key s = (e, s') \<Longrightarrow> fan_frame s s'"
  unfolding notify_key_def
  by (auto split: option.splits prod.splits if_splits
      dest!: fire_members_frame fire_locals_frame fire_stars_frame fire_hook_frame
      intro: fan_frame_trans fan_frame_refl)

lemma notify_keys_frame: "notify_keys rv star keys s = (e, s') \<Longrightarrow> fan_frame s s'"
proof (induction keys arbitrary: s e s')
  case Nil
  then show ?case by (simp add: fan_frame_refl)
next
  case (Cons k keys)
  obtain e2 s2 where nk: "notify_key rv star k s = (e2, s2)" by (cases "notify_key rv star k s")
  have f2: "fan_frame s s2" using nk by (rule notify_key_frame)
  show ?case
  proof (cases e2)
    case None
    then have "notify_keys rv star keys s2 = (e, s')" using Cons.prems nk by simp
    then have "fan_frame s2 s'" by (rule Cons.IH)
    with f2 show ?thesis by (rule fan_frame_trans)
  next
    case (Some err)
    then have "s' = s2" using Cons.prems nk by simp
    with f2 show ?thesis by simp
  qed
qed

text \<open>What the dependent-key loop leaves alone: every field but \<open>props\<close> and the cache.\<close>

definition dep_frame :: "obj \<Rightarrow> obj \<Rightarrow> bool" where
  "dep_frame s s' \<longleftrightarrow>
     self s' = self s \<and> descriptors s' = descriptors s \<and>
     heap s' = heap s \<and> kvo_cacheable s' = kvo_cacheable s \<and>
     kvo_cachedep s' = kvo_cachedep s \<and> kvo_dependents s' = kvo_dependents s \<and>
     kvo_changeLevel s' = kvo_changeLevel s \<and> kvo_changes s' = kvo_changes s \<and>
     kvo_revision s' = kvo_revision s \<and> propertyRevision s' = propertyRevision s \<and>
     kvo_observers s' = kvo_observers s \<and>
     kvo_local s' = kvo_local s \<and> kvo_observed_keys s' = kvo_observed_keys s \<and>
     kvo_chains s' = kvo_chains s \<and> isObservingSuspended s' = isObservingSuspended s \<and>
     trace s' = trace s"

lemma dep_frame_refl: "dep_frame s s"
  by (simp add: dep_frame_def)

lemma dep_frame_trans: "dep_frame s s1 \<Longrightarrow> dep_frame s1 s2 \<Longrightarrow> dep_frame s s2"
  by (simp add: dep_frame_def)

lemma clear_dependent_frame: "dep_frame s (clear_dependent key s)"
  by (simp add: clear_dependent_def dep_frame_def Let_def)

lemma fold_clear_dependent_frame: "dep_frame s (fold clear_dependent keys s)"
proof (induction keys arbitrary: s)
  case Nil
  show ?case by (simp add: dep_frame_refl)
next
  case (Cons k keys)
  have "dep_frame s (clear_dependent k s)" by (rule clear_dependent_frame)
  moreover have "dep_frame (clear_dependent k s) (fold clear_dependent keys (clear_dependent k s))"
    by (rule Cons.IH)
  ultimately show ?case by (simp add: dep_frame_trans)
qed

declare expand_dependents.simps [simp del]

lemma expand_dependents_frame:
  "expand_dependents D idx changes s = (changes', s') \<Longrightarrow> dep_frame s s'"
proof (induction D idx changes s rule: expand_dependents.induct)
  case (1 D idx changes s)
  note unfold = expand_dependents.simps [of D idx changes s]
  show ?case
  proof (cases "idx < length changes")
    case False
    with "1.prems" show ?thesis by (simp add: unfold dep_frame_refl)
  next
    case lt: True
    define keys where "keys = dependents_for D (changes ! idx)"
    show ?thesis
    proof (cases "keys = []")
      case True
      then have "expand_dependents D (Suc idx) changes s = (changes', s')"
        using "1.prems" lt by (simp add: unfold keys_def Let_def)
      then show ?thesis using "1.IH"(2) [OF lt keys_def] True by simp
    next
      case False
      define s1 where "s1 = fold clear_dependent (rev keys) (s\<lparr>kvo_cache := Some (cache_of s)\<rparr>)"
      have run: "expand_dependents D (Suc idx) (CoreSet_addEach changes (rev keys)) s1 = (changes', s')"
        using "1.prems" lt False by (simp add: unfold keys_def s1_def Let_def)
      have "dep_frame s1 s'"
        using "1.IH"(1) [OF lt keys_def False] run by (simp add: s1_def)
      moreover have "dep_frame (s\<lparr>kvo_cache := Some (cache_of s)\<rparr>) s1"
        unfolding s1_def by (rule fold_clear_dependent_frame)
      moreover have "dep_frame s (s\<lparr>kvo_cache := Some (cache_of s)\<rparr>)"
        by (simp add: dep_frame_def)
      ultimately show ?thesis by (blast intro: dep_frame_trans)
    qed
  qed
qed

lemma notify_pass_changes: "notify_pass star s key = (e, s') \<Longrightarrow> kvo_changes s' = None"
proof -
  assume np: "notify_pass star s key = (e, s')"
  obtain changes2 s2 where ex: "pass_expanded s key = (changes2, s2)"
    by (cases "pass_expanded s key")
  have nk: "notify_keys (propertyRevision s + 1) star (rev changes2) s2 = (e, s')"
    using np ex by (simp add: notify_pass_def)
  have "kvo_changes s2 = None"
    using expand_dependents_frame [OF ex [unfolded pass_expanded_def]]
    by (simp add: dep_frame_def)
  moreover have "kvo_changes s' = kvo_changes s2"
    using notify_keys_frame [OF nk] by (simp add: fan_frame_def)
  ultimately show ?thesis by simp
qed

text \<open>The outer loop of the routine. After a turn the key is null.\<close>

function notify_while :: "member list option \<Rightarrow> obj \<Rightarrow> string option \<Rightarrow> error option \<times> obj" where
  "notify_while star s key =
     (if notify_pending s key then
        (case notify_pass star s key of
           (Some e, s1) \<Rightarrow> (Some e, s1)
         | (None, s1) \<Rightarrow> notify_while star s1 None)
      else (None, s))"
  by pat_completeness auto

termination notify_while
  apply (relation "measure (\<lambda>(star, s, key). if notify_pending s key then 1 else 0)")
   apply simp
  apply (auto simp: notify_pending_def pending_changes_def dest!: notify_pass_changes [OF sym])
  done

declare notify_while.simps [simp del]

text \<open>\<open>_hub_notifyPropertyObservers(key)\<close>; the key is \<open>None\<close> when the routine is called
  without one. The change level is raised for the length of the loop and is not restored
  when an observer call throws.\<close>

definition hub_notifyPropertyObservers :: "obj \<Rightarrow> string option \<Rightarrow> error option \<times> obj" where
  "hub_notifyPropertyObservers s key =
     (let star = kvo_observers s ''*'';
          s1 = s\<lparr>kvo_changeLevel := kvo_changeLevel s + 1\<rparr>
      in case notify_while star s1 key of
           (Some e, s2) \<Rightarrow> (Some e, s2)
         | (None, s2) \<Rightarrow> (None, s2\<lparr>kvo_changeLevel := kvo_changeLevel s2 - 1\<rparr>))"

subsection \<open>propertyDidChange, set and the grouping of changes\<close>

definition propertyWillChange :: "obj \<Rightarrow> string \<Rightarrow> obj" where
  "propertyWillChange s key = s"

text \<open>The cache block of \<open>propertyDidChange\<close>, entered when \<open>_hub_kvo_cacheable\<close>
  holds and the cache exists: unless \<open>_hub_keepCache\<close> is passed, the two cache slots of
  a computed property under the key are cleared; then the cached dependents of the key are
  cleared. \<open>set\<close> begins with the same block without the first step.\<close>

definition clear_own_cache :: "obj \<Rightarrow> string \<Rightarrow> obj" where
  "clear_own_cache s key =
     (case computed s key of
        Some (f, d) \<Rightarrow> s\<lparr>kvo_cache := Some (clear_slots s f (cache_of s))\<rparr>
      | None \<Rightarrow> s)"

definition change_caches :: "nat \<Rightarrow> obj \<Rightarrow> string \<Rightarrow> bool \<Rightarrow> error option \<times> obj" where
  "change_caches n s key keepCache =
     (if kvo_cacheable s \<and> kvo_cache s \<noteq> None then
        clear_cached_dependents n (if \<not> keepCache then clear_own_cache s key else s) key
      else (None, s))"

text \<open>\<open>propertyDidChange(key, value, _hub_keepCache)\<close>; the first argument bounds the
  stack of the cached-dependents recursion. hub.ObserverQueue.objectHasPendingChanges
  writes to the queue only and is left out.\<close>

definition propertyDidChange :: "nat \<Rightarrow> obj \<Rightarrow> string \<Rightarrow> val \<Rightarrow> bool \<Rightarrow> error option \<times> obj" where
  "propertyDidChange n s key value keepCache =
     (let s1 = this_put s ''_hub_kvo_revision'' (Num (int (kvo_revision s + 1)));
          level = kvo_changeLevel s1
      in case change_caches n s1 key keepCache of
           (Some e, s2) \<Rightarrow> (Some e, s2)
         | (None, s2) \<Rightarrow>
             if level > 0 \<or> isObservingSuspended s2 then
               (None, s2\<lparr>kvo_changes := Some (CoreSet_add (pending_changes s2) key)\<rparr>)
             else hub_notifyPropertyObservers s2 (Some key))"

text \<open>The branch of \<open>set\<close> for a computed property. First the value is remembered
  under \<open>lastSetValueKey\<close>, the function is called with the key and the value, and what it
  returns is stored under \<open>cacheKey\<close> when the property is cacheable; \<open>store_computed\<close>
  is the object at that point. Then \<open>propertyDidChange\<close> is called with
  \<open>_hub_keepCache\<close>.\<close>

definition store_computed :: "obj \<Rightarrow> string \<Rightarrow> val \<Rightarrow> nat \<Rightarrow> desc \<Rightarrow> obj" where
  "store_computed s key value f d =
     (let cache1 = (cache_of s)(lastSetValueKey d := value);
          ret = fn d (props s) key value;
          cache2 = (if isCacheable d then cache1(cacheKey d := ret) else cache1)
      in s\<lparr>kvo_cache := Some cache2, trace := trace s @ [Invoke f key value]\<rparr>)"

definition set_computed ::
  "nat \<Rightarrow> obj \<Rightarrow> string \<Rightarrow> val \<Rightarrow> nat \<Rightarrow> desc \<Rightarrow> bool \<Rightarrow> error option \<times> obj" where
  "set_computed n s key value f d notify =
     (let s2 = (if notify then propertyWillChange s key else s);
          s3 = store_computed s2 key value f d
      in if notify then propertyDidChange n s3 key (fn d (props s2) key value) True
         else (None, s3))"

text \<open>\<open>set(key, value)\<close>. The outcome is \<open>None\<close> when the call returns (it returns the
  receiver) and the error when it throws; the object is the one left behind either way.\<close>

definition set_key :: "nat \<Rightarrow> obj \<Rightarrow> string \<Rightarrow> val \<Rightarrow> error option \<times> obj" where
  "set_key n s key value =
     (let func = props s key;
          notify = automaticallyNotifiesObserversFor s key
      in case change_caches n s key True of
           (Some e, s1) \<Rightarrow> (Some e, s1)
         | (None, s1) \<Rightarrow>
             (case computed s1 key of
                Some (f, d) \<Rightarrow>
                  if isVolatile d \<or> kvo_cache s1 = None \<or>
                     strict_neq (cache_of s1 (lastSetValueKey d)) value
                  then set_computed n s1 key value f d notify
                  else (None, s1)
              | None \<Rightarrow>
                  if func = Undefined then
                    (let s2 = (if notify then propertyWillChange s1 key else s1);
                         s3 = snd (unknownProperty s2 key value)
                     in if notify then propertyDidChange n s3 key value False else (None, s3))
                  else if strict_neq (props s1 key) value then
                    (let s2 = (if notify then propertyWillChange s1 key else s1);
                         s3 = this_put s2 key value
                     in if notify then propertyDidChange n s3 key value False else (None, s3))
                  else (None, s1)))"

definition beginPropertyChanges :: "obj \<Rightarrow> obj" where
  "beginPropertyChanges s = s\<lparr>kvo_changeLevel := kvo_changeLevel s + 1\<rparr>"

definition endPropertyChanges :: "obj \<Rightarrow> error option \<times> obj" where
  "endPropertyChanges s =
     (let s1 = s\<lparr>kvo_changeLevel := kvo_changeLevel s - 1\<rparr>
      in if kvo_changeLevel s1 \<le> 0 \<and> length (pending_changes s1) > 0 \<and>
            \<not> isObservingSuspended s1
         then hub_notifyPropertyObservers s1 None
         else (None, s1))"

definition setIfChanged :: "nat \<Rightarrow> obj \<Rightarrow> string \<Rightarrow> val \<Rightarrow> error option \<times> obj" where
  "setIfChanged n s key value =
     (case get s key of
        (v, s1) \<Rightarrow> if strict_neq v value then set_key n s1 key value else (None, s1))"

definition notifyPropertyChange :: "nat \<Rightarrow> obj \<Rightarrow> string \<Rightarrow> val \<Rightarrow> error option \<times> obj" where
  "notifyPropertyChange n s key value =
     propertyDidChange n (propertyWillChange s key) key value False"

definition allPropertiesDidChange :: "obj \<Rightarrow> error option \<times> obj" where
  "allPropertiesDidChange s = hub_notifyPropertyObservers (s\<lparr>kvo_cache := None\<rparr>) (Some ''*'')"

subsection \<open>Dependent keys and observers\<close>

text \<open>\<open>registerDependentKey(key, dependentKeys)\<close>: from the last dependent key to the
  first, the key is pushed on the list of that dependent key.\<close>

definition registerDependentKey :: "obj \<Rightarrow> string \<Rightarrow> string list \<Rightarrow> obj" where
  "registerDependentKey s key dependentKeys =
     s\<lparr>kvo_dependents :=
         fold (\<lambda>dep D. AList.update dep (dependents_for D dep @ [key]) D)
           (rev dependentKeys) (kvo_dependents s)\<rparr>"

text \<open>\<open>target[method]\<close> for a method name and a truthy target: what the receiver reads
  under the name when the target is the receiver, what the target reads otherwise.\<close>

definition lookup_method :: "obj \<Rightarrow> val \<Rightarrow> string \<Rightarrow> val" where
  "lookup_method s target name =
     (if target = Obj (self s) then props s name else heap s target name)"

text \<open>The normalisation at the head of \<open>addObserver\<close> and \<open>removeObserver\<close>: with no
  method the target is the method and the receiver the target; a falsy target is the
  receiver; a method name is looked up on the target.\<close>

definition normalize_observer :: "obj \<Rightarrow> val \<Rightarrow> val \<Rightarrow> val \<times> val" where
  "normalize_observer s target method =
     (let target1 = (if method = Undefined then Obj (self s) else target);
          method1 = (if method = Undefined then target else method);
          target2 = (if \<not> truthy target1 then Obj (self s) else target1);
          method2 = (case method1 of Str name \<Rightarrow> lookup_method s target2 name | _ \<Rightarrow> method1)
      in (target2, method2))"

text \<open>
  \<open>addObserver(key, target, method, context)\<close>. The outcome is the thrown error, if any,
  and the object is the one the call leaves behind. Modelled from the spec:
  hub._hub_ChainObserver.createChain (private/chain_observer.js is not among the
  sources) "constructs a ChainObserver"; the chain is kept with its path, master target,
  master method and context, and what it hooks up along the path is left out.
\<close>

definition addObserver :: "obj \<Rightarrow> string \<Rightarrow> val \<Rightarrow> val \<Rightarrow> val \<Rightarrow> error option \<times> obj" where
  "addObserver s key target method context =
     (case normalize_observer s target method of
        (target1, method1) \<Rightarrow>
          if \<not> truthy method1 then (Some NoMethod, s)
          else if CHR ''.'' \<in> set key then
            (let chs = (case kvo_chains s key of None \<Rightarrow> [] | Some cs \<Rightarrow> cs);
                 s1 = s\<lparr>kvo_chains :=
                        (kvo_chains s)(key \<mapsto> chs @ [Some (key, target1, method1, context)])\<rparr>
             in if truthy (props s1 ''didAddObserver'') then
                  call_method Hook s1 (props s1 ''didAddObserver'') (Obj (self s1))
                    [Str key, target1, method1]
                else (None, s1))
          else
            (let s0 = (if props s key = Undefined \<and> take 1 key = ''@'' then snd (get s key)
                       else s);
                 target2 = (if target1 = Obj (self s0) then Null else target1);
                 members = (case kvo_observers s0 key of None \<Rightarrow> [] | Some ms \<Rightarrow> ms);
                 s1 = s0\<lparr>kvo_observers :=
                          (kvo_observers s0)(key \<mapsto> ObserverSet_add members target2 method1 context),
                        kvo_observed_keys := CoreSet_add (kvo_observed_keys s0) key\<rparr>
             in if truthy (props s1 ''didAddObserver'') then
                  call_method Hook s1 (props s1 ''didAddObserver'') (Obj (self s1))
                    [Str key, target2, method1]
                else (None, s1)))"

text \<open>\<open>removeObserver(key, target, method)\<close>. \<open>destroyChain()\<close> returns null, which
  takes the place of the chain in the list; \<open>observers.targets <= 0\<close> is an ObserverSet
  without members.\<close>

definition removeObserver :: "obj \<Rightarrow> string \<Rightarrow> val \<Rightarrow> val \<Rightarrow> error option \<times> obj" where
  "removeObserver s key target method =
     (case normalize_observer s target method of
        (target1, method1) \<Rightarrow>
          if \<not> truthy method1 then (Some NoMethod, s)
          else if CHR ''.'' \<in> set key then
            (let s1 =
               (case kvo_chains s key of
                  None \<Rightarrow> s
                | Some chs \<Rightarrow>
                    s\<lparr>kvo_chains := (kvo_chains s)(key \<mapsto>
                        map (\<lambda>chain. case chain of
                                None \<Rightarrow> None
                              | Some (p, t, m, c) \<Rightarrow>
                                  if t = target1 \<and> m = method1 then None else Some (p, t, m, c))
                          chs)\<rparr>)
             in if truthy (props s1 ''didRemoveObserver'') then
                  call_method Hook s1 (props s1 ''didRemoveObserver'') (Obj (self s1))
                    [Str key, target1, method1]
                else (None, s1))
          else
            (let target2 = (if target1 = Obj (self s) then Null else target1);
                 s1 =
                   (case kvo_observers s key of
                      None \<Rightarrow> s
                    | Some members \<Rightarrow>
                        (let members1 = ObserverSet_remove members target2 method1;
                             s0 = s\<lparr>kvo_observers := (kvo_observers s)(key \<mapsto> members1)\<rparr>
                         in if members1 = [] then
                              s0\<lparr>kvo_observed_keys := CoreSet_remove (kvo_observed_keys s0) key\<rparr>
                            else s0))
             in if truthy (props s1 ''didRemoveObserver'') then
                  call_method Hook s1 (props s1 ''didRemoveObserver'') (Obj (self s1))
                    [Str key, target2, method1]
                else (None, s1)))"

subsection \<open>Sequences of calls\<close>

text \<open>The public operations of the mixin as one type, and the object a sequence of
  calls leaves behind. A call that throws leaves the object as it was at the throw and
  the sequence goes on, as it does for a caller that catches the exception.\<close>

datatype op =
    Get string
  | Set string val
  | SetIfChanged string val
  | BeginPropertyChanges
  | EndPropertyChanges
  | PropertyWillChange string
  | PropertyDidChange string val bool
  | NotifyPropertyChange string val
  | AllPropertiesDidChange
  | AddObserver string val val val
  | RemoveObserver string val val
  | RegisterDependentKey string "string list"

fun apply_op :: "nat \<Rightarrow> op \<Rightarrow> obj \<Rightarrow> obj" where
  "apply_op n (Get key) s = snd (get s key)"
| "apply_op n (Set key value) s = snd (set_key n s key value)"
| "apply_op n (SetIfChanged key value) s = snd (setIfChanged n s key value)"
| "apply_op n BeginPropertyChanges s = beginPropertyChanges s"
| "apply_op n EndPropertyChanges s = snd (endPropertyChanges s)"
| "apply_op n (PropertyWillChange key) s = propertyWillChange s key"
| "apply_op n (PropertyDidChange key value keepCache) s =
     snd (propertyDidChange n s key value keepCache)"
| "apply_op n (NotifyPropertyChange key value) s = snd (notifyPropertyChange n s key value)"
| "apply_op n AllPropertiesDidChange s = snd (allPropertiesDidChange s)"
| "apply_op n (AddObserver key target method context) s =
     snd (addObserver s key target method context)"
| "apply_op n (RemoveObserver key target method) s = snd (removeObserver s key target method)"
| "apply_op n (RegisterDependentKey key dependentKeys) s =
     registerDependentKey s key dependentKeys"

definition run :: "nat \<Rightarrow> op list \<Rightarrow> obj \<Rightarrow> obj" where
  "run n ops s = fold (apply_op n) ops s"

text \<open>\<open>get(key)\<close> called a number of times in a row: the values returned and the object
  left behind.\<close>

fun get_times :: "nat \<Rightarrow> obj \<Rightarrow> string \<Rightarrow> val list \<times> obj" where
  "get_times 0 s key = ([], s)"
| "get_times (Suc n) s key =
     (case get s key of
        (v, s1) \<Rightarrow> (case get_times n s1 key of (vs, s2) \<Rightarrow> (v # vs, s2)))"

text \<open>A run of \<open>set\<close> calls, which stops at the first one that throws, and the same run
  between \<open>beginPropertyChanges()\<close> and the matching \<open>endPropertyChanges()\<close>.\<close>

fun set_all :: "nat \<Rightarrow> obj \<Rightarrow> (string \<times> val) list \<Rightarrow> error option \<times> obj" where
  "set_all n s [] = (None, s)"
| "set_all n s ((key, value) # kvs) =
     (case set_key n s key value of
        (Some e, s1) \<Rightarrow> (Some e, s1)
      | (None, s1) \<Rightarrow> set_all n s1 kvs)"

definition grouped_sets :: "nat \<Rightarrow> obj \<Rightarrow> (string \<times> val) list \<Rightarrow> error option \<times> obj" where
  "grouped_sets n s kvs =
     (case set_all n (beginPropertyChanges s) kvs of
        (Some e, s1) \<Rightarrow> (Some e, s1)
      | (None, s1) \<Rightarrow> endPropertyChanges s1)"

subsection \<open>Example objects\<close>

text \<open>
  What every value inherits from Object.prototype, what a function has besides, and what
  an object with the mixin reads under the names of the mixin's own members. The functions
  are told apart by their identities only.
\<close>

definition object_member :: "string \<Rightarrow> val" where
  "object_member =
     (\<lambda>name. Undefined)
       (''constructor'' := Fn 100, ''hasOwnProperty'' := Fn 101, ''isPrototypeOf'' := Fn 102,
        ''propertyIsEnumerable'' := Fn 103, ''toLocaleString'' := Fn 104, ''toString'' := Fn 105,
        ''valueOf'' := Fn 106, ''__defineGetter__'' := Fn 107, ''__defineSetter__'' := Fn 108,
        ''__lookupGetter__'' := Fn 109, ''__lookupSetter__'' := Fn 110)"

definition function_member :: "string \<Rightarrow> val" where
  "function_member = object_member(''call'' := Fn 111, ''apply'' := Fn 112, ''bind'' := Fn 113)"

definition mixin_member :: "string \<Rightarrow> val" where
  "mixin_member =
     object_member
       (''isObservable'' := VBool True, ''automaticallyNotifiesObserversFor'' := Fn 120,
        ''get'' := Fn 121, ''set'' := Fn 122, ''unknownProperty'' := Fn 123,
        ''beginPropertyChanges'' := Fn 124, ''endPropertyChanges'' := Fn 125,
        ''propertyWillChange'' := Fn 126, ''propertyDidChange'' := Fn 127,
        ''registerDependentKey'' := Fn 128, ''_hub_kvo_addCachedDependents'' := Fn 129,
        ''_hub_kvo_computeCachedDependentsFor'' := Fn 130, ''_hub_kvo_for'' := Fn 131,
        ''addObserver'' := Fn 132, ''removeObserver'' := Fn 133, ''hasObserverFor'' := Fn 134,
        ''initObservable'' := Fn 135, ''observersForKey'' := Fn 136,
        ''_hub_notifyPropertyObservers'' := Fn 137, ''didChangeFor'' := Fn 138,
        ''setIfChanged'' := Fn 139, ''getPath'' := Fn 140, ''setPath'' := Fn 141,
        ''setPathIfChanged'' := Fn 142, ''getEach'' := Fn 143, ''incrementProperty'' := Fn 144,
        ''decrementProperty'' := Fn 145, ''toggleProperty'' := Fn 146,
        ''notifyPropertyChange'' := Fn 147, ''allPropertiesDidChange'' := Fn 148,
        ''addProbe'' := Fn 149, ''removeProbe'' := Fn 150, ''logProperty'' := Fn 151,
        ''propertyRevision'' := Num 1)"

declare object_member_def [simp] function_member_def [simp] mixin_member_def [simp]

text \<open>An object that has the mixin and nothing else: \<open>propertyRevision\<close> is 1 and
  every \<open>_hub_kvo_*\<close> field is undefined. Every other value has the inherited members
  only, a function those of a function and a string its length.\<close>

definition new_obj :: obj where
  "new_obj = \<lparr>self = 0, props = mixin_member, descriptors = Map.empty,
     heap = (\<lambda>v. case v of Fn f \<Rightarrow> function_member
                | Str x \<Rightarrow> object_member(''length'' := Num (int (length x)))
                | _ \<Rightarrow> object_member),
     kvo_cache = None, kvo_cacheable = False,
     kvo_cachedep = None, kvo_dependents = [], kvo_changeLevel = 0,
     kvo_changes = None, kvo_revision = 0, propertyRevision = 1,
     kvo_observers = Map.empty, kvo_local = Map.empty, kvo_observed_keys = [],
     kvo_chains = Map.empty, isObservingSuspended = False, trace = []\<rparr>"

text \<open>A cacheable computed property \<open>nickname\<close> that returns the plain property
  \<open>nick\<close>, and an object that has it.\<close>

definition nickname :: desc where
  "nickname = \<lparr>fn = (\<lambda>P key value. P ''nick''), isCacheable = True, isVolatile = False,
     cacheKey = ''__cache__1'', lastSetValueKey = ''__lastValue__1''\<rparr>"

definition person :: obj where
  "person = new_obj\<lparr>props := (props new_obj)(''nickname'' := Fn 1),
     descriptors := [1 \<mapsto> nickname], kvo_cacheable := True\<rparr>"

text \<open>An object with the plain property \<open>value\<close> and one observer on it: the method
  \<open>Fn 9\<close> of the object at address 5.\<close>

definition watched :: obj where
  "watched = new_obj\<lparr>props := (props new_obj)(''value'' := Num 0),
     kvo_observers := [''value'' \<mapsto> [(Obj 5, Fn 9, Undefined, None)]],
     kvo_observed_keys := [''value'']\<rparr>"

subsection \<open>The calls the notification routine makes\<close>

text \<open>
  The calls one pass of the routine attempts for a key, in the words of the ordering
  guarantee: the members of the key's ObserverSet whose slot is not the revision of the
  pass, in snapshot order; the local observers that name a truthy property of the receiver;
  the star observers, unless the key is the star itself; the \<open>propertyObserver\<close> hook
  if the receiver has one. A null target stands for the receiver.
\<close>

definition resolve_target :: "obj \<Rightarrow> val \<Rightarrow> val" where
  "resolve_target s t = (if truthy t then t else Obj (self s))"

definition member_calls :: "obj \<Rightarrow> nat \<Rightarrow> string \<Rightarrow> member list \<Rightarrow> event list" where
  "member_calls s rv key ms =
     map (\<lambda>(t, m, c, r). Fire Member m (resolve_target s t) (observer_args s key c rv))
       (filter (\<lambda>(t, m, c, r). r \<noteq> Some rv) ms)"

definition local_calls :: "obj \<Rightarrow> nat \<Rightarrow> string \<Rightarrow> string list \<Rightarrow> event list" where
  "local_calls s rv key names =
     map (\<lambda>name. Fire Local (props s name) (Obj (self s))
                  [Obj (self s), Str key, Null, Num (int rv)])
       (filter (\<lambda>name. truthy (props s name)) names)"

definition star_calls :: "obj \<Rightarrow> nat \<Rightarrow> string \<Rightarrow> member list \<Rightarrow> event list" where
  "star_calls s rv key ms =
     map (\<lambda>(t, m, c, r). Fire Star m (resolve_target s t) (observer_args s key c rv)) ms"

definition hook_calls :: "obj \<Rightarrow> nat \<Rightarrow> string \<Rightarrow> event list" where
  "hook_calls s rv key =
     (if truthy (props s ''propertyObserver'') then
        [Fire Hook (props s ''propertyObserver'') (Obj (self s))
           [Obj (self s), Str key, Num (int rv)]]
      else [])"

definition key_calls :: "obj \<Rightarrow> nat \<Rightarrow> member list option \<Rightarrow> string \<Rightarrow> event list" where
  "key_calls s rv star key =
     (case kvo_observers s key of None \<Rightarrow> [] | Some ms \<Rightarrow> member_calls s rv key ms) @
     (case kvo_local s key of None \<Rightarrow> [] | Some names \<Rightarrow> local_calls s rv key names) @
     (case star of
        None \<Rightarrow> []
      | Some ms \<Rightarrow> if key \<noteq> ''*'' then star_calls s rv key ms else []) @
     hook_calls s rv key"

text \<open>A call goes through when the method is a function. The trace of a loop is the
  longest run of its calls that go through, and the loop throws a TypeError unless all
  of them do.\<close>

fun callable :: "event \<Rightarrow> bool" where
  "callable (Fire ph (Fn f) t args) = True"
| "callable (Fire ph m t args) = False"
| "callable (Invoke f key value) = True"

definition ran :: "obj \<Rightarrow> event list \<Rightarrow> error option \<times> obj \<Rightarrow> bool" where
  "ran s calls res \<longleftrightarrow>
     trace (snd res) = trace s @ takeWhile callable calls \<and>
     (fst res = None \<longleftrightarrow> list_all callable calls) \<and>
     (fst res = None \<or> fst res = Some TypeError)"

text \<open>The members of a key's ObserverSet, and the uniqueness of the target and method
  pairs in it (the target as the routine resolves it).\<close>

definition members_of :: "obj \<Rightarrow> string \<Rightarrow> member list" where
  "members_of s key = (case kvo_observers s key of None \<Rightarrow> [] | Some ms \<Rightarrow> ms)"



text \<open>An object with two pending keys, \<open>a\<close> and \<open>b\<close>: two observers and a local
  observer on \<open>a\<close>, a star observer and a \<open>propertyObserver\<close> hook.\<close>

definition busy :: obj where
  "busy = new_obj\<lparr>props := (props new_obj)(''a'' := Num 1, ''b'' := Num 2,
       ''aDidChange'' := Fn 20, ''propertyObserver'' := Fn 30),
     kvo_changes := Some [''a'', ''b''],
     kvo_observers := [''a'' \<mapsto> [(Obj 5, Fn 9, Undefined, None), (Null, Fn 10, Str ''ctx'', None)],
                       ''*'' \<mapsto> [(Obj 6, Fn 11, Undefined, None)]],
     kvo_local := [''a'' \<mapsto> [''aDidChange'']],
     kvo_observed_keys := [''a'', ''*'']\<rparr>"



text \<open>The same object when the first observer of \<open>a\<close> has already been notified of
  revision 2.\<close>

definition busy_seen :: obj where
  "busy_seen = busy\<lparr>kvo_observers :=
     [''a'' \<mapsto> [(Obj 5, Fn 9, Undefined, Some 2), (Null, Fn 10, Str ''ctx'', None)],
      ''*'' \<mapsto> [(Obj 6, Fn 11, Undefined, None)]]\<rparr>"

text \<open>An object with an observer on the key \<open>ghost\<close>, under which nothing is stored.\<close>

definition ghostly :: obj where
  "ghostly = new_obj\<lparr>kvo_observers := [''ghost'' \<mapsto> [(Obj 5, Fn 9, Undefined, None)]],
     kvo_observed_keys := [''ghost'']\<rparr>"

text \<open>A fresh object next to a heap object at address 7 whose property \<open>name\<close> is
  the string \<open>Bob\<close>.\<close>

definition named :: obj where
  "named = new_obj\<lparr>heap := (heap new_obj)(Obj 7 := (heap new_obj (Obj 7))(''name'' := Str ''Bob''))\<rparr>"

text \<open>The trace of the second object begins with the trace of the first.\<close>

definition extends :: "obj \<Rightarrow> obj \<Rightarrow> bool" where
  "extends s s' \<longleftrightarrow> (\<exists>evs. trace s' = trace s @ evs)"

text \<open>
  A cache slot is safe from a function when it is neither the \<open>cacheKey\<close> nor the
  \<open>lastSetValueKey\<close> of the function, the two slots that clearing the function's cache
  writes. The keys whose dependent keys a \<open>set\<close> of a key reaches first are the key
  itself and, when the change is notified at once, the keys of the pass: the pending keys
  and, for the star, the observed keys.
\<close>

definition safe_fn :: "obj \<Rightarrow> string \<Rightarrow> nat \<Rightarrow> bool" where
  "safe_fn s slot f \<longleftrightarrow> cacheKey_of s f \<noteq> slot \<and> lastSetValueKey_of s f \<noteq> slot"

definition first_reached :: "obj \<Rightarrow> string \<Rightarrow> string list" where
  "first_reached s key =
     (if 0 < kvo_changeLevel s \<or> isObservingSuspended s then [key]
      else key # pass_changes s (Some key))"

text \<open>
  A cache slot is shielded from a \<open>set\<close> of a key by a set \<open>S\<close> of keys when the slot is
  not the name \<open>undefined\<close> (which the slots of every value without a \<open>cacheKey\<close> share);
  \<open>S\<close> holds the dependent keys of the keys reached first and, with every key, its
  dependent keys; the slot is safe from every function stored under a key of \<open>S\<close>; and the
  slot is safe from every function in the memo of cached dependents of the key, if there
  is one.
\<close>

definition shielded :: "obj \<Rightarrow> string \<Rightarrow> string set \<Rightarrow> string \<Rightarrow> bool" where
  "shielded s key S slot \<longleftrightarrow>
     slot \<noteq> ''undefined'' \<and>
     (\<forall>k \<in> set (first_reached s key). set (dependents_for (kvo_dependents s) k) \<subseteq> S) \<and>
     (\<forall>k \<in> S. set (dependents_for (kvo_dependents s) k) \<subseteq> S) \<and>
     (\<forall>k \<in> S. \<forall>f. props s k = Fn f \<longrightarrow> safe_fn s slot f) \<and>
     (\<forall>fs. memo_of s key = Some (Some fs) \<longrightarrow> (\<forall>f \<in> set fs. safe_fn s slot f))"

text \<open>A cacheable computed property \<open>title\<close> whose function returns the value it is
  called with; an object that has it and has been set to \<open>Dr\<close>; the same object where
  \<open>title\<close> and the plain property \<open>first\<close> are registered as depending on each other;
  and the object where a second cacheable computed property, \<open>greeting\<close>, depends on
  \<open>title\<close> and has a cached value.\<close>

definition title :: desc where
  "title = \<lparr>fn = (\<lambda>P key value. value), isCacheable = True, isVolatile = False,
     cacheKey = ''__cache__2'', lastSetValueKey = ''__lastValue__2''\<rparr>"

definition titled :: obj where
  "titled = new_obj\<lparr>props := (props new_obj)(''title'' := Fn 2),
     descriptors := [2 \<mapsto> title], kvo_cacheable := True,
     kvo_cache := Some ((\<lambda>k. Undefined)(''__lastValue__2'' := Str ''Dr''))\<rparr>"

definition mutual :: obj where
  "mutual = titled\<lparr>props := (props titled)(''first'' := Str ''x''),
     kvo_dependents := [(''title'', [''first'']), (''first'', [''title''])]\<rparr>"

definition greeting :: desc where
  "greeting = \<lparr>fn = (\<lambda>P key value. Str ''Hello''), isCacheable = True, isVolatile = False,
     cacheKey = ''__cache__3'', lastSetValueKey = ''__lastValue__3''\<rparr>"

definition greeted :: obj where
  "greeted = titled\<lparr>props := (props titled)(''greeting'' := Fn 3),
     descriptors := [2 \<mapsto> title, 3 \<mapsto> greeting],
     kvo_cache := Some ((\<lambda>k. Undefined)(''__lastValue__2'' := Str ''Dr'',
       ''__cache__3'' := Str ''Hello'')),
     kvo_dependents := [(''title'', [''greeting''])]\<rparr>"




text \<open>The target and method pairs registered for a key, as the ObserverSet stores them
  (a null target stands for the receiver). An object is tidy when its pending set holds no
  key twice and every ObserverSet holds each pair once, with targets that are null or
  truthy values other than the receiver.\<close>

definition registered :: "obj \<Rightarrow> string \<Rightarrow> (val \<times> val) list" where
  "registered s key = map (\<lambda>(t, m, c, r). (t, m)) (members_of s key)"


text \<open>An object with an observer on the key \<open>ratio\<close>, which holds NaN.\<close>

definition adrift :: obj where
  "adrift = new_obj\<lparr>props := (props new_obj)(''ratio'' := NaN),
     kvo_observers := [''ratio'' \<mapsto> [(Obj 5, Fn 9, Undefined, None)]],
     kvo_observed_keys := [''ratio'']\<rparr>"

text \<open>
  What the two calls \<open>addObserver(key, target, method, context)\<close> and
  \<open>removeObserver(key, target, method)\<close> do on an object. Rejected: both throw "You must
  pass a method" and leave the object as it was. Accepted as the pair of the target \<open>t\<close>
  and the method \<open>m\<close>: neither throws that error; each returns unless its hook
  (\<open>didAddObserver\<close>, \<open>didRemoveObserver\<close>) is a truthy value that is not a function; for a
  key without a dot the pair (with null for the receiver) is in the ObserverSet of the key
  after \<open>addObserver\<close>, the key is among the observed keys, and the pair is not in the
  ObserverSet after \<open>removeObserver\<close>; for a key with a dot the chain is in the list of
  chains after \<open>addObserver\<close>.
\<close>

definition rejected :: "obj \<Rightarrow> string \<Rightarrow> val \<Rightarrow> val \<Rightarrow> val \<Rightarrow> bool" where
  "rejected s key target method context \<longleftrightarrow>
     addObserver s key target method context = (Some NoMethod, s) \<and>
     removeObserver s key target method = (Some NoMethod, s)"

fun hook_returns :: "val \<Rightarrow> bool" where
  "hook_returns (Fn f) = True"
| "hook_returns v = (\<not> truthy v)"

definition accepted :: "obj \<Rightarrow> string \<Rightarrow> val \<Rightarrow> val \<Rightarrow> val \<Rightarrow> val \<Rightarrow> val \<Rightarrow> bool" where
  "accepted s key target method context t m \<longleftrightarrow>
     fst (addObserver s key target method context) \<noteq> Some NoMethod \<and>
     fst (removeObserver s key target method) \<noteq> Some NoMethod \<and>
     (hook_returns (props s ''didAddObserver'') \<longrightarrow>
        fst (addObserver s key target method context) = None) \<and>
     (hook_returns (props s ''didRemoveObserver'') \<longrightarrow>
        fst (removeObserver s key target method) = None) \<and>
     (CHR ''.'' \<notin> set key \<longrightarrow>
        (if t = Obj (self s) then Null else t, m)
          \<in> set (registered (snd (addObserver s key target method context)) key) \<and>
        key \<in> set (kvo_observed_keys (snd (addObserver s key target method context))) \<and>
        (if t = Obj (self s) then Null else t, m)
          \<notin> set (registered (snd (removeObserver s key target method)) key)) \<and>
     (CHR ''.'' \<in> set key \<longrightarrow>
        Some (key, t, m, context)
          \<in> set (case kvo_chains (snd (addObserver s key target method context)) key of
                   None \<Rightarrow> [] | Some chs \<Rightarrow> chs))"

section \<open>The trace of the notification routine\<close>

lemma ran_nil: "ran s [] (None, s)"
  by (simp add: ran_def)

lemma ran_seq:
  assumes "ran s c1 (e1, s1)" and "e1 = None \<Longrightarrow> ran s1 c2 r2"
  shows "ran s (c1 @ c2) (case e1 of Some e \<Rightarrow> (Some e, s1) | None \<Rightarrow> r2)"
proof (cases e1)
  case None
  then have all: "list_all callable c1" using assms(1) by (simp add: ran_def)
  then have tw: "takeWhile callable (c1 @ c2) = c1 @ takeWhile callable c2"
    by (simp add: list_all_iff)
  have "takeWhile callable c1 = c1" using all by (simp add: list_all_iff)
  then show ?thesis using None assms all tw by (auto simp: ran_def)
next
  case (Some e)
  then have nall: "\<not> list_all callable c1" using assms(1) by (auto simp: ran_def)
  then have tw: "takeWhile callable (c1 @ c2) = takeWhile callable c1"
    by (auto simp: list_all_iff takeWhile_append1)
  show ?thesis using Some assms(1) nall tw by (auto simp: ran_def)
qed

lemma ran_call_method:
  "ran s [Fire ph m t args] (call_method ph s m t args)"
  by (cases m) (simp_all add: ran_def call_method_def)

lemma clause_eq: "(case e of Some e \<Rightarrow> (Some e, s) | None \<Rightarrow> (None, s)) = (e, s)"
  by (cases e) simp_all


lemma ran_trace_cong: "trace s1 = trace s \<Longrightarrow> ran s1 calls res = ran s calls res"
  by (simp add: ran_def)

lemma observer_args_cong: "self s' = self s \<Longrightarrow> observer_args s' = observer_args s"
  by (intro ext) (simp add: observer_args_def)

lemma member_calls_cong: "self s' = self s \<Longrightarrow> member_calls s' = member_calls s"
  by (intro ext) (auto simp: member_calls_def resolve_target_def observer_args_def)

lemma star_calls_cong: "self s' = self s \<Longrightarrow> star_calls s' = star_calls s"
  by (intro ext) (auto simp: star_calls_def resolve_target_def observer_args_def)

lemma local_calls_cong:
  "self s' = self s \<Longrightarrow> props s' = props s \<Longrightarrow> local_calls s' = local_calls s"
  by (intro ext) (simp add: local_calls_def)

lemma hook_calls_cong:
  "self s' = self s \<Longrightarrow> props s' = props s \<Longrightarrow> hook_calls s' = hook_calls s"
  by (intro ext) (simp add: hook_calls_def)

lemma ran_fire_members: "ran s (member_calls s rv key ms) (fire_members rv key i ms s)"
proof (induction rv key i ms s rule: fire_members.induct)
  case (1 rv key i s)
  show ?case by (simp add: member_calls_def ran_nil)
next
  case (2 rv key i t m c r ms s)
  show ?case
  proof (cases "r = Some rv")
    case True
    have "member_calls s rv key ((t, m, c, r) # ms) = member_calls s rv key ms"
      using True by (simp add: member_calls_def)
    then show ?thesis using True "2.IH"(1) by simp
  next
    case False
    define s1 where "s1 = mark_notified s key i rv"
    define tg where "tg = (if truthy t then t else Obj (self s))"
    have fr: "fan_frame s s1" unfolding s1_def by (rule mark_notified_frame)
    have self1: "self s1 = self s" using fr by (simp add: fan_frame_def)
    obtain e2 s2 where cm: "call_method Member s1 m tg (observer_args s1 key c rv) = (e2, s2)"
      by (cases "call_method Member s1 m tg (observer_args s1 key c rv)")
    have self2: "self s2 = self s"
      using call_method_frame [OF cm] self1 by (simp add: fan_frame_def)
    have tr1: "trace s1 = trace s"
      unfolding s1_def mark_notified_def by (simp split: option.splits prod.splits)
    have first: "ran s [Fire Member m tg (observer_args s key c rv)] (e2, s2)"
      using ran_call_method [of s1 Member m tg "observer_args s1 key c rv"] cm
      by (simp add: ran_trace_cong [OF tr1] observer_args_cong [OF self1])
    have rest: "e2 = None \<Longrightarrow> ran s2 (member_calls s rv key ms) (fire_members rv key (Suc i) ms s2)"
    proof -
      assume n: "e2 = None"
      have "ran s2 (member_calls s2 rv key ms) (fire_members rv key (Suc i) ms s2)"
        using "2.IH"(2) [OF False tg_def s1_def] cm n by simp
      then show ?thesis by (simp add: member_calls_cong [OF self2])
    qed
    have split: "member_calls s rv key ((t, m, c, r) # ms) =
        [Fire Member m tg (observer_args s key c rv)] @ member_calls s rv key ms"
      using False by (simp add: member_calls_def resolve_target_def tg_def)
    have unfold: "fire_members rv key i ((t, m, c, r) # ms) s =
        (case e2 of Some e \<Rightarrow> (Some e, s2) | None \<Rightarrow> fire_members rv key (Suc i) ms s2)"
      using False cm by (simp add: s1_def [symmetric] tg_def [symmetric] split: option.splits)
    show ?thesis unfolding split unfold using first rest by (rule ran_seq)
  qed
qed

lemma ran_fire_locals: "ran s (local_calls s rv key names) (fire_locals rv key names s)"
proof (induction names arbitrary: s)
  case Nil
  show ?case by (simp add: local_calls_def ran_nil)
next
  case (Cons a names)
  show ?case
  proof (cases "truthy (props s a)")
    case False
    then have "local_calls s rv key (a # names) = local_calls s rv key names"
      by (simp add: local_calls_def)
    then show ?thesis using False Cons.IH [of s] by simp
  next
    case True
    let ?args = "[Obj (self s), Str key, Null, Num (int rv)]"
    obtain e2 s2 where cm: "call_method Local s (props s a) (Obj (self s)) ?args = (e2, s2)"
      by (cases "call_method Local s (props s a) (Obj (self s)) ?args")
    have fr: "fan_frame s s2" using cm by (rule call_method_frame)
    have first: "ran s [Fire Local (props s a) (Obj (self s)) ?args] (e2, s2)"
      using ran_call_method [of s Local "props s a" "Obj (self s)" ?args] cm by simp
    have rest: "e2 = None \<Longrightarrow> ran s2 (local_calls s rv key names) (fire_locals rv key names s2)"
    proof -
      have "local_calls s2 = local_calls s"
        by (rule local_calls_cong) (use fr in \<open>simp_all add: fan_frame_def\<close>)
      then show ?thesis using Cons.IH [of s2] by simp
    qed
    have split: "local_calls s rv key (a # names) =
        [Fire Local (props s a) (Obj (self s)) ?args] @ local_calls s rv key names"
      using True by (simp add: local_calls_def)
    have unfold: "fire_locals rv key (a # names) s =
        (case e2 of Some e \<Rightarrow> (Some e, s2) | None \<Rightarrow> fire_locals rv key names s2)"
      using True cm by (simp add: Let_def split: option.splits)
    show ?thesis unfolding split unfold using first rest by (rule ran_seq)
  qed
qed

lemma ran_fire_stars: "ran s (star_calls s rv key ms) (fire_stars rv key ms s)"
proof (induction ms arbitrary: s)
  case Nil
  show ?case by (simp add: star_calls_def ran_nil)
next
  case (Cons a ms)
  obtain t m c r where a: "a = (t, m, c, r)" by (cases a)
  define tg where "tg = (if truthy t then t else Obj (self s))"
  obtain e2 s2 where cm: "call_method Star s m tg (observer_args s key c rv) = (e2, s2)"
    by (cases "call_method Star s m tg (observer_args s key c rv)")
  have fr: "fan_frame s s2" using cm by (rule call_method_frame)
  have first: "ran s [Fire Star m tg (observer_args s key c rv)] (e2, s2)"
    using ran_call_method [of s Star m tg "observer_args s key c rv"] cm by simp
  have rest: "e2 = None \<Longrightarrow> ran s2 (star_calls s rv key ms) (fire_stars rv key ms s2)"
  proof -
    have "star_calls s2 = star_calls s"
      by (rule star_calls_cong) (use fr in \<open>simp add: fan_frame_def\<close>)
    then show ?thesis using Cons.IH [of s2] by simp
  qed
  have split: "star_calls s rv key (a # ms) =
      [Fire Star m tg (observer_args s key c rv)] @ star_calls s rv key ms"
    by (simp add: star_calls_def a resolve_target_def tg_def)
  have unfold: "fire_stars rv key (a # ms) s =
      (case e2 of Some e \<Rightarrow> (Some e, s2) | None \<Rightarrow> fire_stars rv key ms s2)"
    using cm by (simp add: a tg_def [symmetric] split: option.splits)
  show ?case unfolding split unfold using first rest by (rule ran_seq)
qed

lemma ran_fire_hook: "ran s (hook_calls s rv key) (fire_hook rv key s)"
  unfolding hook_calls_def fire_hook_def
  by (simp add: ran_nil ran_call_method)


lemma mark_notified_other:
  "k \<noteq> key \<Longrightarrow> kvo_observers (mark_notified s key i rv) k = kvo_observers s k"
  unfolding mark_notified_def by (simp split: option.splits prod.splits)

lemma call_method_observers:
  "call_method ph s m t args = (e, s') \<Longrightarrow> kvo_observers s' = kvo_observers s"
  unfolding call_method_def by (cases m) auto

lemma fire_members_other:
  "fire_members rv key i ms s = (e, s') \<Longrightarrow> k \<noteq> key \<Longrightarrow>
   kvo_observers s' k = kvo_observers s k"
proof (induction rv key i ms s arbitrary: e s' rule: fire_members.induct)
  case (1 rv key i s)
  then show ?case by simp
next
  case (2 rv key i t m c r ms s)
  show ?case
  proof (cases "r = Some rv")
    case True
    with 2 show ?thesis by simp
  next
    case False
    define s1 where "s1 = mark_notified s key i rv"
    define tg where "tg = (if truthy t then t else Obj (self s))"
    obtain e2 s2 where cm: "call_method Member s1 m tg (observer_args s1 key c rv) = (e2, s2)"
      by (cases "call_method Member s1 m tg (observer_args s1 key c rv)")
    have o2: "kvo_observers s2 k = kvo_observers s k"
      using call_method_observers [OF cm] mark_notified_other [OF "2.prems"(2)]
      by (simp add: s1_def)
    show ?thesis
    proof (cases e2)
      case None
      have run: "fire_members rv key (Suc i) ms s2 = (e, s')"
        using "2.prems" False cm None by (simp add: s1_def [symmetric] tg_def [symmetric])
      have "kvo_observers s' k = kvo_observers s2 k"
        using "2.IH"(2) [OF False tg_def s1_def cm [symmetric, unfolded None] refl run "2.prems"(2)] .
      with o2 show ?thesis by simp
    next
      case (Some err)
      then have "s' = s2"
        using "2.prems" False cm by (simp add: s1_def [symmetric] tg_def [symmetric])
      with o2 show ?thesis by simp
    qed
  qed
qed

lemma fire_locals_observers:
  "fire_locals rv key names s = (e, s') \<Longrightarrow> kvo_observers s' = kvo_observers s"
proof (induction names arbitrary: s e s')
  case Nil
  then show ?case by simp
next
  case (Cons a names)
  show ?case
  proof (cases "truthy (props s a)")
    case False
    with Cons show ?thesis by simp
  next
    case True
    obtain e2 s2 where cm: "call_method Local s (props s a) (Obj (self s))
        [Obj (self s), Str key, Null, Num (int rv)] = (e2, s2)"
      by (cases "call_method Local s (props s a) (Obj (self s))
        [Obj (self s), Str key, Null, Num (int rv)]")
    note o2 = call_method_observers [OF cm]
    show ?thesis
    proof (cases e2)
      case None
      then have "fire_locals rv key names s2 = (e, s')" using Cons.prems True cm by simp
      then have "kvo_observers s' = kvo_observers s2" by (rule Cons.IH)
      with o2 show ?thesis by simp
    next
      case (Some err)
      then have "s' = s2" using Cons.prems True cm by simp
      with o2 show ?thesis by simp
    qed
  qed
qed

lemma fire_stars_observers:
  "fire_stars rv key ms s = (e, s') \<Longrightarrow> kvo_observers s' = kvo_observers s"
proof (induction ms arbitrary: s e s')
  case Nil
  then show ?case by simp
next
  case (Cons a ms)
  obtain t m c r where a: "a = (t, m, c, r)" by (cases a)
  define tg where "tg = (if truthy t then t else Obj (self s))"
  obtain e2 s2 where cm: "call_method Star s m tg (observer_args s key c rv) = (e2, s2)"
    by (cases "call_method Star s m tg (observer_args s key c rv)")
  note o2 = call_method_observers [OF cm]
  show ?case
  proof (cases e2)
    case None
    then have "fire_stars rv key ms s2 = (e, s')"
      using Cons.prems a cm by (simp add: tg_def [symmetric])
    then have "kvo_observers s' = kvo_observers s2" by (rule Cons.IH)
    with o2 show ?thesis by simp
  next
    case (Some err)
    then have "s' = s2" using Cons.prems a cm by (simp add: tg_def [symmetric])
    with o2 show ?thesis by simp
  qed
qed

lemma fire_hook_observers:
  "fire_hook rv key s = (e, s') \<Longrightarrow> kvo_observers s' = kvo_observers s"
  unfolding fire_hook_def by (auto dest: call_method_observers split: if_splits)

text \<open>The four loops for one key, one after the other.\<close>

lemma notify_key_steps:
  obtains e1 s1 e2 s2 e3 s3 where
    "(case kvo_observers s key of None \<Rightarrow> (None, s)
      | Some members \<Rightarrow> fire_members rv key 0 members s) = (e1, s1)"
    "(case kvo_local s1 key of None \<Rightarrow> (None, s1)
      | Some members \<Rightarrow> fire_locals rv key members s1) = (e2, s2)"
    "(case star of Some members \<Rightarrow>
         if key \<noteq> ''*'' then fire_stars rv key members s2 else (None, s2)
      | None \<Rightarrow> (None, s2)) = (e3, s3)"
    "notify_key rv star key s =
       (case e1 of Some e \<Rightarrow> (Some e, s1)
        | None \<Rightarrow> (case e2 of Some e \<Rightarrow> (Some e, s2)
           | None \<Rightarrow> (case e3 of Some e \<Rightarrow> (Some e, s3) | None \<Rightarrow> fire_hook rv key s3)))"
proof -
  obtain e1 s1 where a: "(case kvo_observers s key of None \<Rightarrow> (None, s)
      | Some members \<Rightarrow> fire_members rv key 0 members s) = (e1, s1)"
    by (cases "(case kvo_observers s key of None \<Rightarrow> (None, s)
      | Some members \<Rightarrow> fire_members rv key 0 members s)")
  obtain e2 s2 where b: "(case kvo_local s1 key of None \<Rightarrow> (None, s1)
      | Some members \<Rightarrow> fire_locals rv key members s1) = (e2, s2)"
    by (cases "(case kvo_local s1 key of None \<Rightarrow> (None, s1)
      | Some members \<Rightarrow> fire_locals rv key members s1)")
  obtain e3 s3 where c: "(case star of Some members \<Rightarrow>
         if key \<noteq> ''*'' then fire_stars rv key members s2 else (None, s2)
      | None \<Rightarrow> (None, s2)) = (e3, s3)"
    by (cases "(case star of Some members \<Rightarrow>
         if key \<noteq> ''*'' then fire_stars rv key members s2 else (None, s2)
      | None \<Rightarrow> (None, s2))")
  have "notify_key rv star key s =
       (case e1 of Some e \<Rightarrow> (Some e, s1)
        | None \<Rightarrow> (case e2 of Some e \<Rightarrow> (Some e, s2)
           | None \<Rightarrow> (case e3 of Some e \<Rightarrow> (Some e, s3) | None \<Rightarrow> fire_hook rv key s3)))"
    unfolding notify_key_def a using b c by (simp split: option.splits)
  with a b c show ?thesis by (rule that)
qed

lemma ran_notify_key: "ran s (key_calls s rv star key) (notify_key rv star key s)"
proof -
  obtain e1 s1 e2 s2 e3 s3 where
    a: "(case kvo_observers s key of None \<Rightarrow> (None, s)
      | Some members \<Rightarrow> fire_members rv key 0 members s) = (e1, s1)" and
    b: "(case kvo_local s1 key of None \<Rightarrow> (None, s1)
      | Some members \<Rightarrow> fire_locals rv key members s1) = (e2, s2)" and
    c: "(case star of Some members \<Rightarrow>
         if key \<noteq> ''*'' then fire_stars rv key members s2 else (None, s2)
      | None \<Rightarrow> (None, s2)) = (e3, s3)" and
    d: "notify_key rv star key s =
       (case e1 of Some e \<Rightarrow> (Some e, s1)
        | None \<Rightarrow> (case e2 of Some e \<Rightarrow> (Some e, s2)
           | None \<Rightarrow> (case e3 of Some e \<Rightarrow> (Some e, s3) | None \<Rightarrow> fire_hook rv key s3)))"
    by (rule notify_key_steps)
  have f1: "fan_frame s s1"
    using a by (auto split: option.splits dest: fire_members_frame simp: fan_frame_refl)
  have f2: "fan_frame s1 s2"
    using b by (auto split: option.splits dest: fire_locals_frame simp: fan_frame_refl)
  have f3: "fan_frame s2 s3"
    using c by (auto split: option.splits if_splits dest: fire_stars_frame simp: fan_frame_refl)
  have r1: "ran s (case kvo_observers s key of None \<Rightarrow> []
      | Some ms \<Rightarrow> member_calls s rv key ms) (e1, s1)"
  proof (cases "kvo_observers s key")
    case None
    then show ?thesis using a by (auto simp: ran_nil)
  next
    case (Some ms)
    then show ?thesis using a ran_fire_members [of s rv key ms 0] by simp
  qed
  have r2: "ran s1 (case kvo_local s key of None \<Rightarrow> []
      | Some names \<Rightarrow> local_calls s rv key names) (e2, s2)"
  proof -
    have "local_calls s1 = local_calls s"
      by (rule local_calls_cong) (use f1 in \<open>simp_all add: fan_frame_def\<close>)
    moreover have "kvo_local s1 = kvo_local s" using f1 by (simp add: fan_frame_def)
    ultimately show ?thesis
    proof (cases "kvo_local s key")
      case None
      assume "kvo_local s1 = kvo_local s"
      then show ?thesis using None b by (auto simp: ran_nil)
    next
      case (Some names)
      assume "local_calls s1 = local_calls s" and "kvo_local s1 = kvo_local s"
      then show ?thesis using Some b ran_fire_locals [of s1 rv key names] by simp
    qed
  qed
  have r3: "ran s2 (case star of None \<Rightarrow> []
      | Some ms \<Rightarrow> if key \<noteq> ''*'' then star_calls s rv key ms else []) (e3, s3)"
  proof -
    have "star_calls s2 = star_calls s"
      by (rule star_calls_cong) (use f1 f2 in \<open>simp add: fan_frame_def\<close>)
    then show ?thesis
    proof (cases star)
      case None
      then show ?thesis using c by (auto simp: ran_nil)
    next
      case (Some ms)
      assume "star_calls s2 = star_calls s"
      then show ?thesis using Some c ran_fire_stars [of s2 rv key ms]
        by (cases "key = ''*''") (auto simp: ran_nil)
    qed
  qed
  have r4: "ran s3 (hook_calls s rv key) (fire_hook rv key s3)"
  proof -
    have "hook_calls s3 = hook_calls s"
      by (rule hook_calls_cong) (use f1 f2 f3 in \<open>simp_all add: fan_frame_def\<close>)
    then show ?thesis using ran_fire_hook [of s3 rv key] by simp
  qed
  have s34: "ran s2 ((case star of None \<Rightarrow> []
      | Some ms \<Rightarrow> if key \<noteq> ''*'' then star_calls s rv key ms else []) @ hook_calls s rv key)
      (case e3 of Some e \<Rightarrow> (Some e, s3) | None \<Rightarrow> fire_hook rv key s3)"
    using r3 r4 by (rule ran_seq)
  have s234: "ran s1 ((case kvo_local s key of None \<Rightarrow> []
      | Some names \<Rightarrow> local_calls s rv key names) @ (case star of None \<Rightarrow> []
      | Some ms \<Rightarrow> if key \<noteq> ''*'' then star_calls s rv key ms else []) @ hook_calls s rv key)
      (case e2 of Some e \<Rightarrow> (Some e, s2)
           | None \<Rightarrow> (case e3 of Some e \<Rightarrow> (Some e, s3) | None \<Rightarrow> fire_hook rv key s3))"
    using r2 s34 by (rule ran_seq)
  show ?thesis unfolding key_calls_def d using r1 s234 by (rule ran_seq)
qed

lemma notify_key_other:
  assumes "notify_key rv star key s = (e, s')" and "k \<noteq> key"
  shows "kvo_observers s' k = kvo_observers s k"
proof -
  obtain e1 s1 e2 s2 e3 s3 where
    a: "(case kvo_observers s key of None \<Rightarrow> (None, s)
      | Some members \<Rightarrow> fire_members rv key 0 members s) = (e1, s1)" and
    b: "(case kvo_local s1 key of None \<Rightarrow> (None, s1)
      | Some members \<Rightarrow> fire_locals rv key members s1) = (e2, s2)" and
    c: "(case star of Some members \<Rightarrow>
         if key \<noteq> ''*'' then fire_stars rv key members s2 else (None, s2)
      | None \<Rightarrow> (None, s2)) = (e3, s3)" and
    d: "notify_key rv star key s =
       (case e1 of Some e \<Rightarrow> (Some e, s1)
        | None \<Rightarrow> (case e2 of Some e \<Rightarrow> (Some e, s2)
           | None \<Rightarrow> (case e3 of Some e \<Rightarrow> (Some e, s3) | None \<Rightarrow> fire_hook rv key s3)))"
    by (rule notify_key_steps)
  have o1: "kvo_observers s1 k = kvo_observers s k"
    using a assms(2) by (auto split: option.splits dest: fire_members_other)
  have o2: "kvo_observers s2 = kvo_observers s1"
    using b by (auto split: option.splits dest: fire_locals_observers)
  have o3: "kvo_observers s3 = kvo_observers s2"
    using c by (auto split: option.splits if_splits dest: fire_stars_observers)
  obtain e4 s4 where h: "fire_hook rv key s3 = (e4, s4)" by (cases "fire_hook rv key s3")
  have o4: "kvo_observers s4 = kvo_observers s3" using h by (rule fire_hook_observers)
  have "s' = s1 \<or> s' = s2 \<or> s' = s3 \<or> s' = s4"
    using assms(1) d h by (auto split: option.splits)
  then show ?thesis using o1 o2 o3 o4 by auto
qed

lemma key_calls_cong:
  assumes "fan_frame s s'" and "kvo_observers s' key = kvo_observers s key"
  shows "key_calls s' rv star key = key_calls s rv star key"
proof -
  have a: "member_calls s' = member_calls s"
    by (rule member_calls_cong) (use assms(1) in \<open>simp add: fan_frame_def\<close>)
  have b: "local_calls s' = local_calls s"
    by (rule local_calls_cong) (use assms(1) in \<open>simp_all add: fan_frame_def\<close>)
  have c: "star_calls s' = star_calls s"
    by (rule star_calls_cong) (use assms(1) in \<open>simp add: fan_frame_def\<close>)
  have d: "hook_calls s' = hook_calls s"
    by (rule hook_calls_cong) (use assms(1) in \<open>simp_all add: fan_frame_def\<close>)
  have e: "kvo_local s' = kvo_local s" using assms(1) by (simp add: fan_frame_def)
  show ?thesis unfolding key_calls_def a b c d e assms(2) ..
qed

lemma ran_notify_keys:
  "distinct keys \<Longrightarrow>
   ran s (concat (map (key_calls s rv star) keys)) (notify_keys rv star keys s)"
proof (induction keys arbitrary: s)
  case Nil
  show ?case by (simp add: ran_nil)
next
  case (Cons k keys)
  obtain e1 s1 where nk: "notify_key rv star k s = (e1, s1)" by (cases "notify_key rv star k s")
  have fr: "fan_frame s s1" using nk by (rule notify_key_frame)
  have first: "ran s (key_calls s rv star k) (e1, s1)"
    using ran_notify_key [of s rv star k] nk by simp
  have same: "map (key_calls s1 rv star) keys = map (key_calls s rv star) keys"
  proof (rule map_cong [OF refl])
    fix k' assume "k' \<in> set keys"
    then have "k' \<noteq> k" using Cons.prems by auto
    then have "kvo_observers s1 k' = kvo_observers s k'" using nk by (rule notify_key_other [rotated])
    with fr show "key_calls s1 rv star k' = key_calls s rv star k'" by (rule key_calls_cong)
  qed
  have rest: "ran s1 (concat (map (key_calls s rv star) keys)) (notify_keys rv star keys s1)"
    using Cons.IH [of s1] Cons.prems same by simp
  have unfold: "notify_keys rv star (k # keys) s =
      (case e1 of Some e \<Rightarrow> (Some e, s1) | None \<Rightarrow> notify_keys rv star keys s1)"
    using nk by (simp split: option.splits)
  have split: "concat (map (key_calls s rv star) (k # keys)) =
      key_calls s rv star k @ concat (map (key_calls s rv star) keys)" by simp
  show ?case unfolding split unfold using first rest by (rule ran_seq)
qed

section \<open>Properties of get\<close>

lemma computed_cong:
  "props s' = props s \<Longrightarrow> descriptors s' = descriptors s \<Longrightarrow> computed s' key = computed s key"
  by (simp add: computed_def split: val.splits)

lemma get_miss:
  assumes "computed s key = Some (f, d)" and "isCacheable d"
    and "cache_of s (cacheKey d) = Undefined"
  shows "get s key = (fn d (props s) key Undefined,
           s\<lparr>kvo_cache := Some ((cache_of s)(cacheKey d := fn d (props s) key Undefined)),
             trace := trace s @ [Invoke f key Undefined]\<rparr>)"
proof -
  have "props s key \<noteq> Undefined" using assms(1) by (auto simp: computed_def split: val.splits)
  then show ?thesis using assms by (simp add: get_def Let_def)
qed

lemma get_hit:
  assumes "computed s key = Some (f, d)" and "isCacheable d"
    and "cache_of s (cacheKey d) \<noteq> Undefined"
  shows "get s key = (cache_of s (cacheKey d), s\<lparr>kvo_cache := Some (cache_of s)\<rparr>)"
proof -
  have "props s key \<noteq> Undefined" using assms(1) by (auto simp: computed_def split: val.splits)
  then show ?thesis using assms by (simp add: get_def Let_def)
qed

lemma get_times_undefined:
  assumes "computed s key = Some (f, d)" and "isCacheable d"
    and "cache_of s (cacheKey d) = Undefined"
    and "fn d (props s) key Undefined = Undefined"
  shows "fst (get_times n s key) = replicate n Undefined \<and>
         trace (snd (get_times n s key)) = trace s @ replicate n (Invoke f key Undefined) \<and>
         cache_of (snd (get_times n s key)) (cacheKey d) = Undefined"
  using assms
proof (induction n arbitrary: s)
  case 0
  then show ?case by simp
next
  case (Suc n)
  define s1 where "s1 = s\<lparr>kvo_cache := Some ((cache_of s)(cacheKey d := Undefined)),
             trace := trace s @ [Invoke f key Undefined]\<rparr>"
  have g: "get s key = (Undefined, s1)"
    using get_miss [OF Suc.prems(1-3)] Suc.prems(4) by (simp add: s1_def)
  have c1: "computed s1 key = Some (f, d)" using Suc.prems(1) computed_cong [of s1 s key] by (simp add: s1_def)
  have m1: "cache_of s1 (cacheKey d) = Undefined" by (simp add: s1_def cache_of_def)
  have r1: "fn d (props s1) key Undefined = Undefined" using Suc.prems(4) by (simp add: s1_def)
  note ih = Suc.IH [OF c1 Suc.prems(2) m1 r1]
  have tr: "trace s1 = trace s @ [Invoke f key Undefined]" by (simp add: s1_def)
  show ?case using ih g tr
    by (simp add: split_beta replicate_app_Cons_same)
qed

lemma get_times_defined:
  assumes "computed s key = Some (f, d)" and "isCacheable d"
    and "cache_of s (cacheKey d) \<noteq> Undefined"
  shows "fst (get_times n s key) = replicate n (cache_of s (cacheKey d)) \<and>
         trace (snd (get_times n s key)) = trace s"
  using assms
proof (induction n arbitrary: s)
  case 0
  then show ?case by simp
next
  case (Suc n)
  define s1 where "s1 = s\<lparr>kvo_cache := Some (cache_of s)\<rparr>"
  have g: "get s key = (cache_of s (cacheKey d), s1)"
    using get_hit [OF Suc.prems] by (simp add: s1_def)
  have c1: "computed s1 key = Some (f, d)" using Suc.prems(1) computed_cong [of s1 s key] by (simp add: s1_def)
  have m1: "cache_of s1 = cache_of s" by (simp add: s1_def cache_of_def)
  note ih = Suc.IH [OF c1 Suc.prems(2), unfolded m1, OF Suc.prems(3)]
  show ?case using ih g by (simp add: split_beta s1_def)
qed

text \<open>
  Claim C10. For a key that holds a cacheable computed property whose cache slot is empty:
  when the function returns undefined, every one of \<open>n\<close> successive \<open>get(key)\<close> calls
  invokes the function again and returns undefined, so undefined is never memoized; when
  it returns another value, the first call invokes the function and the calls after it
  return the cached value without invoking it.
\<close>

theorem get_never_memoizes_undefined:
  assumes "computed s key = Some (f, d)" and "isCacheable d"
    and "cache_of s (cacheKey d) = Undefined"
  shows "(fn d (props s) key Undefined = Undefined \<longrightarrow>
            fst (get_times n s key) = replicate n Undefined \<and>
            trace (snd (get_times n s key)) = trace s @ replicate n (Invoke f key Undefined)) \<and>
         (fn d (props s) key Undefined \<noteq> Undefined \<longrightarrow>
            fst (get_times (Suc n) s key) = replicate (Suc n) (fn d (props s) key Undefined) \<and>
            trace (snd (get_times (Suc n) s key)) = trace s @ [Invoke f key Undefined])"
proof (intro conjI impI)
  assume u: "fn d (props s) key Undefined = Undefined"
  show "fst (get_times n s key) = replicate n Undefined"
    using get_times_undefined [OF assms u] by simp
  show "trace (snd (get_times n s key)) = trace s @ replicate n (Invoke f key Undefined)"
    using get_times_undefined [OF assms u] by simp
next
  assume v: "fn d (props s) key Undefined \<noteq> Undefined"
  define r where "r = fn d (props s) key Undefined"
  define s1 where "s1 = s\<lparr>kvo_cache := Some ((cache_of s)(cacheKey d := r)),
             trace := trace s @ [Invoke f key Undefined]\<rparr>"
  have g: "get s key = (r, s1)" using get_miss [OF assms] by (simp add: s1_def r_def)
  have c1: "computed s1 key = Some (f, d)" using assms(1) computed_cong [of s1 s key] by (simp add: s1_def)
  have m1: "cache_of s1 (cacheKey d) = r" by (simp add: s1_def cache_of_def)
  have h1: "cache_of s1 (cacheKey d) \<noteq> Undefined" using m1 v r_def by simp
  note rest = get_times_defined [OF c1 assms(2) h1, of n, unfolded m1]
  show "fst (get_times (Suc n) s key) = replicate (Suc n) (fn d (props s) key Undefined)"
    using rest g by (simp add: split_beta r_def)
  show "trace (snd (get_times (Suc n) s key)) = trace s @ [Invoke f key Undefined]"
    using rest g by (simp add: split_beta s1_def)
qed

lemma person_computed: "computed person ''nickname'' = Some (1, nickname)"
  by (simp add: person_def new_obj_def computed_def)

theorem get_never_memoizes_undefined_witness:
  "fst (get_times 3 person ''nickname'') = replicate 3 Undefined \<and>
   trace (snd (get_times 3 person ''nickname'')) =
     replicate 3 (Invoke 1 ''nickname'' Undefined) \<and>
   fst (get_times (Suc 2) (person\<lparr>props := (props person)(''nick'' := Str ''Al'')\<rparr>) ''nickname'') =
     replicate (Suc 2) (Str ''Al'') \<and>
   trace (snd (get_times (Suc 2) (person\<lparr>props := (props person)(''nick'' := Str ''Al'')\<rparr>)
     ''nickname'')) = [Invoke 1 ''nickname'' Undefined]"
proof -
  let ?p = "person\<lparr>props := (props person)(''nick'' := Str ''Al'')\<rparr>"
  have c1: "computed person ''nickname'' = Some (1, nickname)" by (rule person_computed)
  have c2: "computed ?p ''nickname'' = Some (1, nickname)"
    by (simp add: person_def new_obj_def computed_def)
  have cb: "isCacheable nickname" by (simp add: nickname_def)
  have m1: "cache_of person (cacheKey nickname) = Undefined"
    by (simp add: person_def new_obj_def cache_of_def)
  have m2: "cache_of ?p (cacheKey nickname) = Undefined"
    by (simp add: person_def new_obj_def cache_of_def)
  have r1: "fn nickname (props person) ''nickname'' Undefined = Undefined"
    by (simp add: nickname_def person_def new_obj_def)
  have r2: "fn nickname (props ?p) ''nickname'' Undefined = Str ''Al''"
    by (simp add: nickname_def)
  have t1: "trace person = []" by (simp add: person_def new_obj_def)
  have t2: "trace ?p = []" by (simp add: person_def new_obj_def)
  from get_never_memoizes_undefined [OF c1 cb m1, of 3] r1 t1
  have a: "fst (get_times 3 person ''nickname'') = replicate 3 Undefined \<and>
     trace (snd (get_times 3 person ''nickname'')) = replicate 3 (Invoke 1 ''nickname'' Undefined)"
    by simp
  from get_never_memoizes_undefined [OF c2 cb m2, of 2] r2 t2
  have b: "fst (get_times (Suc 2) ?p ''nickname'') = replicate (Suc 2) (Str ''Al'') \<and>
     trace (snd (get_times (Suc 2) ?p ''nickname'')) = [Invoke 1 ''nickname'' Undefined]"
    by simp
  from a b show ?thesis by blast
qed

section \<open>The order of the calls in a pass\<close>

lemma CoreSet_add_distinct: "distinct cs \<Longrightarrow> distinct (CoreSet_add cs k)"
  by (simp add: CoreSet_add_def)

lemma CoreSet_addEach_distinct: "distinct cs \<Longrightarrow> distinct (CoreSet_addEach cs ks)"
  unfolding CoreSet_addEach_def
  by (induction ks arbitrary: cs) (simp_all add: CoreSet_add_distinct)

lemma CoreSet_add_set: "set (CoreSet_add cs k) = insert k (set cs)"
  by (auto simp: CoreSet_add_def)


lemma expand_dependents_distinct:
  "expand_dependents D idx changes s = (changes', s') \<Longrightarrow> distinct changes \<Longrightarrow>
   distinct changes'"
proof (induction D idx changes s rule: expand_dependents.induct)
  case (1 D idx changes s)
  note unfold = expand_dependents.simps [of D idx changes s]
  show ?case
  proof (cases "idx < length changes")
    case False
    with "1.prems" show ?thesis by (simp add: unfold)
  next
    case lt: True
    define keys where "keys = dependents_for D (changes ! idx)"
    show ?thesis
    proof (cases "keys = []")
      case True
      then have "expand_dependents D (Suc idx) changes s = (changes', s')"
        using "1.prems" lt by (simp add: unfold keys_def Let_def)
      then show ?thesis using "1.IH"(2) [OF lt keys_def] True "1.prems"(2) by simp
    next
      case False
      have run: "expand_dependents D (Suc idx) (CoreSet_addEach changes (rev keys))
          (fold clear_dependent (rev keys) (s\<lparr>kvo_cache := Some (cache_of s)\<rparr>)) = (changes', s')"
        using "1.prems" lt False by (simp add: unfold keys_def Let_def)
      have "distinct (CoreSet_addEach changes (rev keys))"
        using "1.prems"(2) by (rule CoreSet_addEach_distinct)
      then show ?thesis using "1.IH"(1) [OF lt keys_def False run] by simp
    qed
  qed
qed


lemma pass_changes_distinct: "distinct (pending_changes s) \<Longrightarrow> distinct (pass_changes s key)"
  unfolding pass_changes_def
  by (auto split: option.splits intro: CoreSet_add_distinct CoreSet_addEach_distinct)

lemma pass_expanded_distinct:
  "distinct (pending_changes s) \<Longrightarrow> distinct (fst (pass_expanded s key))"
proof -
  assume d: "distinct (pending_changes s)"
  obtain c2 s2 where ex: "pass_expanded s key = (c2, s2)" by (cases "pass_expanded s key")
  have "distinct c2"
    using ex [unfolded pass_expanded_def] pass_changes_distinct [OF d]
    by (rule expand_dependents_distinct)
  then show ?thesis by (simp add: ex)
qed

lemma pass_expanded_frame: "dep_frame (s\<lparr>propertyRevision := propertyRevision s + 1,
    kvo_changes := None\<rparr>) (snd (pass_expanded s key))"
proof -
  obtain c2 s2 where ex: "pass_expanded s key = (c2, s2)" by (cases "pass_expanded s key")
  show ?thesis using expand_dependents_frame [OF ex [unfolded pass_expanded_def]]
    by (simp add: ex dep_frame_def this_put_def as_counter_def)
qed

lemma notify_pass_eq:
  "notify_pass star s key =
     notify_keys (propertyRevision s + 1) star (rev (fst (pass_expanded s key)))
       (snd (pass_expanded s key))"
  by (simp add: notify_pass_def split_beta)

lemma ran_notify_pass:
  assumes "distinct (pending_changes s)"
  shows "ran s
     (concat (map (key_calls (snd (pass_expanded s key)) (propertyRevision s + 1) star)
        (rev (fst (pass_expanded s key)))))
     (notify_pass star s key)"
proof -
  have d: "distinct (rev (fst (pass_expanded s key)))"
    using pass_expanded_distinct [OF assms] by simp
  have tr: "trace (snd (pass_expanded s key)) = trace s"
    using pass_expanded_frame [of s key] by (simp add: dep_frame_def)
  show ?thesis
    using ran_notify_keys [OF d, of "snd (pass_expanded s key)" "propertyRevision s + 1" star]
    by (simp add: notify_pass_eq ran_trace_cong [OF tr])
qed

text \<open>
  Claim C4. In a pass of the notification routine whose pending set holds no key twice, the
  calls made are, for the changed keys in the order they are popped (the reverse of the
  set of changes), the members of the key's ObserverSet in snapshot order, then the local
  observers, then the star observers (none when the key is the star), then the
  \<open>propertyObserver\<close> hook. The trace is that sequence up to the first method that is
  not a function, and the pass returns without an error exactly when every method is one.
\<close>

theorem fan_out_order:
  assumes "distinct (pending_changes s)"
  shows "trace (snd (notify_pass star s key)) =
           trace s @ takeWhile callable
             (concat (map (key_calls (snd (pass_expanded s key)) (propertyRevision s + 1) star)
                (rev (fst (pass_expanded s key))))) \<and>
         (fst (notify_pass star s key) = None \<longleftrightarrow>
            list_all callable
              (concat (map (key_calls (snd (pass_expanded s key)) (propertyRevision s + 1) star)
                 (rev (fst (pass_expanded s key))))))"
  using ran_notify_pass [OF assms, of key star] by (simp add: ran_def)

lemma busy_calls:
  "concat (map (key_calls (snd (pass_expanded busy None)) (propertyRevision busy + 1)
      (kvo_observers busy ''*'')) (rev (fst (pass_expanded busy None)))) =
   [Fire Star (Fn 11) (Obj 6) [Obj 0, Str ''b'', Null, Num 2],
    Fire Hook (Fn 30) (Obj 0) [Obj 0, Str ''b'', Num 2],
    Fire Member (Fn 9) (Obj 5) [Obj 0, Str ''a'', Null, Num 2],
    Fire Member (Fn 10) (Obj 0) [Obj 0, Str ''a'', Null, Str ''ctx'', Num 2],
    Fire Local (Fn 20) (Obj 0) [Obj 0, Str ''a'', Null, Num 2],
    Fire Star (Fn 11) (Obj 6) [Obj 0, Str ''a'', Null, Num 2],
    Fire Hook (Fn 30) (Obj 0) [Obj 0, Str ''a'', Num 2]]"
  by code_simp

theorem fan_out_order_witness:
  "distinct (pending_changes busy) \<and>
   trace (snd (notify_pass (kvo_observers busy ''*'') busy None)) =
   [Fire Star (Fn 11) (Obj 6) [Obj 0, Str ''b'', Null, Num 2],
    Fire Hook (Fn 30) (Obj 0) [Obj 0, Str ''b'', Num 2],
    Fire Member (Fn 9) (Obj 5) [Obj 0, Str ''a'', Null, Num 2],
    Fire Member (Fn 10) (Obj 0) [Obj 0, Str ''a'', Null, Str ''ctx'', Num 2],
    Fire Local (Fn 20) (Obj 0) [Obj 0, Str ''a'', Null, Num 2],
    Fire Star (Fn 11) (Obj 6) [Obj 0, Str ''a'', Null, Num 2],
    Fire Hook (Fn 30) (Obj 0) [Obj 0, Str ''a'', Num 2]] \<and>
   fst (notify_pass (kvo_observers busy ''*'') busy None) = None"
proof -
  have d: "distinct (pending_changes busy)"
    by (simp add: pending_changes_def busy_def new_obj_def)
  have t: "trace busy = []" by (simp add: busy_def new_obj_def)
  show ?thesis
    using fan_out_order [OF d, of "kvo_observers busy ''*''" None] d
    unfolding busy_calls by (simp add: t)
qed

section \<open>The calls of one execution of the notification routine\<close>

















section \<open>The revision counters\<close>

text \<open>What the cache blocks leave alone (every field but the cache and the memo of cached
  dependents), and what the notification routine leaves alone.\<close>

definition memo_frame :: "obj \<Rightarrow> obj \<Rightarrow> bool" where
  "memo_frame s s' \<longleftrightarrow>
     self s' = self s \<and> props s' = props s \<and> descriptors s' = descriptors s \<and>
     heap s' = heap s \<and> kvo_cacheable s' = kvo_cacheable s \<and>
     kvo_dependents s' = kvo_dependents s \<and>
     kvo_changeLevel s' = kvo_changeLevel s \<and> kvo_changes s' = kvo_changes s \<and>
     kvo_revision s' = kvo_revision s \<and> propertyRevision s' = propertyRevision s \<and>
     kvo_observers s' = kvo_observers s \<and>
     kvo_local s' = kvo_local s \<and> kvo_observed_keys s' = kvo_observed_keys s \<and>
     kvo_chains s' = kvo_chains s \<and> isObservingSuspended s' = isObservingSuspended s \<and>
     trace s' = trace s"


lemma memo_frame_refl: "memo_frame s s"
  by (simp add: memo_frame_def)

lemma memo_frame_trans: "memo_frame s s1 \<Longrightarrow> memo_frame s1 s2 \<Longrightarrow> memo_frame s s2"
  by (simp add: memo_frame_def)





lemma clear_cachedep_frame: "memo_frame s (clear_cachedep s cachedep)"
  by (cases cachedep) (simp_all add: clear_cachedep_def memo_frame_def)

lemma memo_put_frame: "memo_frame s (memo_put s key entry)"
  by (simp add: memo_put_def memo_frame_def)

lemma kvo_computeCachedDependentsFor_frame:
  "kvo_computeCachedDependentsFor n s key = (e, cd, s') \<Longrightarrow> memo_frame s s'"
  unfolding kvo_computeCachedDependentsFor_def Let_def
  by (auto simp: memo_put_frame split: if_splits prod.splits bool.splits)

lemma clear_cached_dependents_frame:
  "clear_cached_dependents n s key = (e, s') \<Longrightarrow> memo_frame s s'"
  unfolding clear_cached_dependents_def
  by (auto simp: memo_frame_refl split: option.splits prod.splits if_splits
      dest!: kvo_computeCachedDependentsFor_frame
      intro: clear_cachedep_frame memo_frame_trans)




lemma change_caches_frame: "change_caches n s key keepCache = (e, s') \<Longrightarrow> memo_frame s s'"
proof -
  assume c: "change_caches n s key keepCache = (e, s')"
  have own: "memo_frame s (clear_own_cache s key)"
    by (simp add: clear_own_cache_def memo_frame_def split: option.splits)
  show ?thesis
  proof (cases "kvo_cacheable s \<and> kvo_cache s \<noteq> None")
    case False
    then show ?thesis using c by (auto simp: change_caches_def memo_frame_refl)
  next
    case True
    show ?thesis
    proof (cases keepCache)
      case True
      then show ?thesis using c \<open>kvo_cacheable s \<and> kvo_cache s \<noteq> None\<close>
        by (auto simp: change_caches_def dest: clear_cached_dependents_frame)
    next
      case False
      then have "clear_cached_dependents n (clear_own_cache s key) key = (e, s')"
        using c True by (simp add: change_caches_def)
      then have "memo_frame (clear_own_cache s key) s'" by (rule clear_cached_dependents_frame)
      with own show ?thesis by (rule memo_frame_trans)
    qed
  qed
qed

section \<open>The revision counters\<close>




































section \<open>At most one call per member and revision\<close>







































section \<open>Setting the value a key already has\<close>

lemma get_plain: "computed s key = None \<Longrightarrow> get s key = (props s key, s)"
  by (simp add: get_def unknownProperty_def Let_def)

text \<open>
  Claim C6 as it is stated fails for two current values. Where the current value is
  undefined, \<open>set\<close> takes the branch for an unknown property, which calls
  \<open>propertyDidChange\<close> whatever the value is: on an object with an observer on the key
  \<open>ghost\<close>, which holds undefined, \<open>set('ghost', undefined)\<close> increments the revision and
  calls the observer. Where the current value is NaN, the comparisons \<open>this.get(key) !== value\<close>
  and \<open>this[key] !== value\<close> both hold for the same value: on an object with an observer on
  the key \<open>ratio\<close>, which holds NaN, \<open>setIfChanged('ratio', NaN)\<close> and \<open>set('ratio', NaN)\<close>
  increment the revision and call the observer.
\<close>

theorem set_identical_value_notifies:
  "props ghostly ''ghost'' = Undefined \<and> computed ghostly ''ghost'' = None \<and>
   trace ghostly = [] \<and> kvo_revision ghostly = 0 \<and>
   fst (set_key 8 ghostly ''ghost'' (props ghostly ''ghost'')) = None \<and>
   trace (snd (set_key 8 ghostly ''ghost'' (props ghostly ''ghost''))) =
     [Fire Member (Fn 9) (Obj 5) [Obj 0, Str ''ghost'', Null, Num 2]] \<and>
   kvo_revision (snd (set_key 8 ghostly ''ghost'' (props ghostly ''ghost''))) = 1 \<and>
   props adrift ''ratio'' = NaN \<and> computed adrift ''ratio'' = None \<and>
   trace adrift = [] \<and> kvo_revision adrift = 0 \<and>
   fst (set_key 8 adrift ''ratio'' (props adrift ''ratio'')) = None \<and>
   trace (snd (set_key 8 adrift ''ratio'' (props adrift ''ratio''))) =
     [Fire Member (Fn 9) (Obj 5) [Obj 0, Str ''ratio'', Null, Num 2]] \<and>
   kvo_revision (snd (set_key 8 adrift ''ratio'' (props adrift ''ratio''))) = 1 \<and>
   fst (setIfChanged 8 adrift ''ratio'' (props adrift ''ratio'')) = None \<and>
   trace (snd (setIfChanged 8 adrift ''ratio'' (props adrift ''ratio''))) =
     [Fire Member (Fn 9) (Obj 5) [Obj 0, Str ''ratio'', Null, Num 2]] \<and>
   kvo_revision (snd (setIfChanged 8 adrift ''ratio'' (props adrift ''ratio''))) = 1"
  by code_simp

text \<open>
  Claim C6, amended. For a key that holds no computed property and whose current value
  \<open>x\<close> is not NaN, \<open>setIfChanged(k, x)\<close> returns the receiver and leaves the whole object
  as it was (no observer is called, no revision moves, nothing is written); and when the
  current value is not undefined either, \<open>set(k, x)\<close> writes no property, calls nobody,
  queues no change and moves neither revision, whether its cache block returns or throws.
\<close>

theorem set_same_value_is_silent:
  assumes "computed s key = None" and "props s key \<noteq> NaN"
  shows "setIfChanged n s key (props s key) = (None, s) \<and>
         (props s key \<noteq> Undefined \<longrightarrow>
            props (snd (set_key n s key (props s key))) = props s \<and>
            trace (snd (set_key n s key (props s key))) = trace s \<and>
            kvo_changes (snd (set_key n s key (props s key))) = kvo_changes s \<and>
            kvo_revision (snd (set_key n s key (props s key))) = kvo_revision s \<and>
            propertyRevision (snd (set_key n s key (props s key))) = propertyRevision s)"
proof (intro conjI impI)
  show "setIfChanged n s key (props s key) = (None, s)"
    using assms(2) by (simp add: setIfChanged_def get_plain [OF assms(1)] strict_neq_def)
next
  assume stored: "props s key \<noteq> Undefined"
  obtain e1 s1 where cc: "change_caches n s key True = (e1, s1)"
    by (cases "change_caches n s key True")
  have m: "memo_frame s s1" using cc by (rule change_caches_frame)
  have c1: "computed s1 key = None"
    using assms(1) computed_cong [of s1 s key] m by (simp add: memo_frame_def)
  have p1: "props s1 = props s" using m by (simp add: memo_frame_def)
  have "snd (set_key n s key (props s key)) = s1"
    using cc c1 p1 stored assms(2)
    by (cases e1) (simp_all add: set_key_def Let_def strict_neq_def)
  then show "props (snd (set_key n s key (props s key))) = props s"
    and "trace (snd (set_key n s key (props s key))) = trace s"
    and "kvo_changes (snd (set_key n s key (props s key))) = kvo_changes s"
    and "kvo_revision (snd (set_key n s key (props s key))) = kvo_revision s"
    and "propertyRevision (snd (set_key n s key (props s key))) = propertyRevision s"
    using m by (simp_all add: memo_frame_def)
qed

theorem set_same_value_is_silent_witness:
  "computed watched ''value'' = None \<and> props watched ''value'' = Num 0 \<and>
   setIfChanged 8 watched ''value'' (Num 0) = (None, watched) \<and>
   props (snd (set_key 8 watched ''value'' (Num 0))) = props watched \<and>
   trace (snd (set_key 8 watched ''value'' (Num 0))) = trace watched \<and>
   kvo_changes (snd (set_key 8 watched ''value'' (Num 0))) = kvo_changes watched \<and>
   kvo_revision (snd (set_key 8 watched ''value'' (Num 0))) = kvo_revision watched \<and>
   propertyRevision (snd (set_key 8 watched ''value'' (Num 0))) = propertyRevision watched"
proof -
  have c: "computed watched ''value'' = None"
    by (simp add: computed_def watched_def new_obj_def)
  have p: "props watched ''value'' = Num 0" by (simp add: watched_def)
  have q: "props watched ''value'' \<noteq> NaN" by (simp add: p)
  show ?thesis using set_same_value_is_silent [OF c q, of 8] c p by simp
qed

section \<open>Observers without a method\<close>

text \<open>
  Claim C9 as it is stated fails for a method that resolves to a truthy value that is not
  a function: the check is \<open>if (!method) throw\<close>. With no method argument the target
  takes its place, so \<open>addObserver('k', obj)\<close> registers the object \<open>obj\<close> as the
  method; and a method name that names the string property \<open>name\<close> of the target
  registers that string. Neither call throws.
\<close>

theorem addObserver_accepts_non_callable:
  "snd (normalize_observer new_obj (Obj 7) Undefined) = Obj 7 \<and>
   fst (addObserver new_obj ''k'' (Obj 7) Undefined Undefined) = None \<and>
   kvo_observers (snd (addObserver new_obj ''k'' (Obj 7) Undefined Undefined)) ''k'' =
     Some [(Null, Obj 7, Undefined, None)] \<and>
   fst (removeObserver new_obj ''k'' (Obj 7) Undefined) = None \<and>
   snd (normalize_observer named (Obj 7) (Str ''name'')) = Str ''Bob'' \<and>
   fst (addObserver named ''k'' (Obj 7) (Str ''name'') Undefined) = None \<and>
   kvo_observers (snd (addObserver named ''k'' (Obj 7) (Str ''name'') Undefined)) ''k'' =
     Some [(Obj 7, Str ''Bob'', Undefined, None)]"
  by code_simp

lemma call_method_error: "fst (call_method ph s m t args) \<noteq> Some NoMethod"
  by (cases m) (simp_all add: call_method_def)

lemma call_method_returns:
  "hook_returns m \<Longrightarrow> truthy m \<Longrightarrow> fst (call_method ph s m t args) = None"
  by (cases m) (simp_all add: call_method_def)

lemma call_method_kept:
  "kvo_observers (snd (call_method ph s m t args)) = kvo_observers s \<and>
   kvo_observed_keys (snd (call_method ph s m t args)) = kvo_observed_keys s \<and>
   kvo_chains (snd (call_method ph s m t args)) = kvo_chains s"
  by (cases m) (simp_all add: call_method_def)

lemma ObserverSet_add_member:
  "(t, m) \<in> set (map (\<lambda>(t, m, c, r). (t, m)) (ObserverSet_add ms t m c))"
  by (induction ms t m c rule: ObserverSet_add.induct) auto

lemma ObserverSet_remove_member:
  "(t, m) \<notin> set (map (\<lambda>(t, m, c, r). (t, m)) (ObserverSet_remove ms t m))"
  unfolding ObserverSet_remove_def by (induction ms) auto

lemma get_observers:
  "kvo_observers (snd (get s key)) = kvo_observers s \<and>
   kvo_observed_keys (snd (get s key)) = kvo_observed_keys s \<and>
   self (snd (get s key)) = self s \<and> props (snd (get s key)) = props s"
  by (auto simp: get_def unknownProperty_def Let_def split: option.splits)

lemma normalized_rejected:
  assumes "normalize_observer s target method = (t, m)" and "\<not> truthy m"
  shows "rejected s key target method context"
  using assms by (simp add: rejected_def addObserver_def removeObserver_def)

lemma normalized_accepted:
  assumes n: "normalize_observer s target method = (t, m)" and tm: "truthy m"
  shows "accepted s key target method context t m"
proof -
  define t2 where "t2 = (if t = Obj (self s) then Null else t)"
  show ?thesis
  proof (cases "CHR ''.'' \<in> set key")
    case dotted: True
    define chs where "chs = (case kvo_chains s key of None \<Rightarrow> [] | Some cs \<Rightarrow> cs)"
    define s1 where "s1 = s\<lparr>kvo_chains :=
        (kvo_chains s)(key \<mapsto> chs @ [Some (key, t, m, context)])\<rparr>"
    define r1 where "r1 = (case kvo_chains s key of
                  None \<Rightarrow> s
                | Some chs \<Rightarrow>
                    s\<lparr>kvo_chains := (kvo_chains s)(key \<mapsto>
                        map (\<lambda>chain. case chain of
                                None \<Rightarrow> None
                              | Some (p, t', m', c) \<Rightarrow>
                                  if t' = t \<and> m' = m then None else Some (p, t', m', c))
                          chs)\<rparr>)"
    have pr: "props r1 = props s" by (simp add: r1_def split: option.splits)
    have a: "addObserver s key target method context =
        (if truthy (props s ''didAddObserver'')
         then call_method Hook s1 (props s ''didAddObserver'') (Obj (self s)) [Str key, t, m]
         else (None, s1))"
      using tm dotted by (simp add: addObserver_def n Let_def s1_def chs_def)
    have r: "removeObserver s key target method =
        (if truthy (props s ''didRemoveObserver'')
         then call_method Hook r1 (props s ''didRemoveObserver'') (Obj (self r1)) [Str key, t, m]
         else (None, r1))"
      using tm dotted pr by (simp add: removeObserver_def n Let_def r1_def)
    have ch: "kvo_chains (snd (addObserver s key target method context)) = kvo_chains s1"
      unfolding a by (simp add: call_method_kept)
    show ?thesis
      unfolding accepted_def ch
      using dotted
      by (auto simp: a r call_method_error call_method_returns s1_def)
  next
    case plain: False
    define s0 where "s0 = (if props s key = Undefined \<and> take 1 key = ''@'' then snd (get s key)
                       else s)"
    have s0: "kvo_observers s0 = kvo_observers s \<and> kvo_observed_keys s0 = kvo_observed_keys s \<and>
        self s0 = self s \<and> props s0 = props s"
      by (simp add: s0_def get_observers)
    define s1 where "s1 = s0\<lparr>kvo_observers :=
        (kvo_observers s0)(key \<mapsto> ObserverSet_add (members_of s0 key) t2 m context),
        kvo_observed_keys := CoreSet_add (kvo_observed_keys s0) key\<rparr>"
    define r1 where "r1 = (case kvo_observers s key of
                      None \<Rightarrow> s
                    | Some members \<Rightarrow>
                        (let members1 = ObserverSet_remove members t2 m;
                             s0 = s\<lparr>kvo_observers := (kvo_observers s)(key \<mapsto> members1)\<rparr>
                         in if members1 = [] then
                              s0\<lparr>kvo_observed_keys := CoreSet_remove (kvo_observed_keys s0) key\<rparr>
                            else s0))"
    have pr: "props r1 = props s" by (simp add: r1_def Let_def split: option.splits)
    have a0: "addObserver s key target method context =
        (if truthy (props s1 ''didAddObserver'')
         then call_method Hook s1 (props s1 ''didAddObserver'') (Obj (self s1)) [Str key, t2, m]
         else (None, s1))"
      using tm plain
      by (simp add: addObserver_def n Let_def s0_def s1_def t2_def members_of_def
          get_observers)
    have p1: "props s1 = props s" using s0 by (simp add: s1_def)
    have a: "addObserver s key target method context =
        (if truthy (props s ''didAddObserver'')
         then call_method Hook s1 (props s ''didAddObserver'') (Obj (self s1)) [Str key, t2, m]
         else (None, s1))"
      using a0 unfolding p1 .
    have r0: "removeObserver s key target method =
        (if truthy (props r1 ''didRemoveObserver'')
         then call_method Hook r1 (props r1 ''didRemoveObserver'') (Obj (self r1)) [Str key, t2, m]
         else (None, r1))"
      unfolding removeObserver_def n r1_def t2_def Let_def using tm plain
      by (simp only: prod.case if_True if_False not_True_eq_False)
    have r: "removeObserver s key target method =
        (if truthy (props s ''didRemoveObserver'')
         then call_method Hook r1 (props s ''didRemoveObserver'') (Obj (self r1)) [Str key, t2, m]
         else (None, r1))"
      using r0 unfolding pr .
    have ra: "registered (snd (addObserver s key target method context)) key =
        registered s1 key"
      and ka: "kvo_observed_keys (snd (addObserver s key target method context)) =
        kvo_observed_keys s1"
      unfolding a by (simp_all add: call_method_kept registered_def members_of_def)
    have rr: "registered (snd (removeObserver s key target method)) key = registered r1 key"
      unfolding r by (simp add: call_method_kept registered_def members_of_def)
    have in1: "(t2, m) \<in> set (registered s1 key)"
      using ObserverSet_add_member [of t2 m "members_of s0 key" "context"]
      by (simp add: s1_def registered_def members_of_def)
    have k1: "key \<in> set (kvo_observed_keys s1)"
      by (simp add: s1_def CoreSet_add_set)
    have out1: "(t2, m) \<notin> set (registered r1 key)"
    proof (cases "kvo_observers s key")
      case None
      then show ?thesis by (simp add: r1_def registered_def members_of_def)
    next
      case (Some ms)
      then have "members_of r1 key = ObserverSet_remove ms t2 m"
        by (simp add: r1_def Let_def members_of_def)
      then show ?thesis using ObserverSet_remove_member [of t2 m ms]
        by (simp add: registered_def)
    qed
    show ?thesis
      unfolding accepted_def ra ka rr t2_def [symmetric]
      using plain in1 k1 out1
      by (auto simp: a r call_method_error call_method_returns)
  qed
qed

text \<open>
  Claim C9, amended. \<open>addObserver(key, target, method, context)\<close> and
  \<open>removeObserver(key, target, method)\<close> throw "You must pass a method" at the call site
  and leave the object as it was in these cases and no other: no method is passed and the
  target is falsy and not a string; no method is passed, the target is a string, and the
  receiver has no truthy property of that name; the method is a string and the target (the
  receiver when the target is falsy) has no truthy property of that name; the method is
  any other falsy value. In every other case the calls are accepted whether or not the
  value the method resolves to is a function: it is the target itself when no method is
  passed, the property the name names, or the method as passed, and it is registered with
  the target (the receiver when no method is passed or the target is falsy).
\<close>

theorem observer_without_method_throws:
  "(method = Undefined \<and> (\<forall>name. target \<noteq> Str name) \<longrightarrow>
      (if truthy target then accepted s key target method context (Obj (self s)) target
       else rejected s key target method context)) \<and>
   (method = Undefined \<and> target = Str name \<longrightarrow>
      (if truthy (props s name)
       then accepted s key target method context (Obj (self s)) (props s name)
       else rejected s key target method context)) \<and>
   (method = Str name \<longrightarrow>
      (if truthy (lookup_method s (if truthy target then target else Obj (self s)) name)
       then accepted s key target method context
              (if truthy target then target else Obj (self s))
              (lookup_method s (if truthy target then target else Obj (self s)) name)
       else rejected s key target method context)) \<and>
   (method \<noteq> Undefined \<and> (\<forall>name. method \<noteq> Str name) \<longrightarrow>
      (if truthy method
       then accepted s key target method context
              (if truthy target then target else Obj (self s)) method
       else rejected s key target method context))"
proof (intro conjI impI)
  assume a: "method = Undefined \<and> (\<forall>name. target \<noteq> Str name)"
  then have "normalize_observer s target method = (Obj (self s), target)"
    by (cases target) (simp_all add: normalize_observer_def)
  then show "if truthy target then accepted s key target method context (Obj (self s)) target
       else rejected s key target method context"
    by (simp add: normalized_accepted normalized_rejected)
next
  assume a: "method = Undefined \<and> target = Str name"
  then have "normalize_observer s target method = (Obj (self s), props s name)"
    by (simp add: normalize_observer_def lookup_method_def)
  then show "if truthy (props s name)
       then accepted s key target method context (Obj (self s)) (props s name)
       else rejected s key target method context"
    by (simp add: normalized_accepted normalized_rejected)
next
  assume a: "method = Str name"
  then have "normalize_observer s target method =
      (if truthy target then target else Obj (self s),
       lookup_method s (if truthy target then target else Obj (self s)) name)"
    by (simp add: normalize_observer_def Let_def)
  then show "if truthy (lookup_method s (if truthy target then target else Obj (self s)) name)
       then accepted s key target method context
              (if truthy target then target else Obj (self s))
              (lookup_method s (if truthy target then target else Obj (self s)) name)
       else rejected s key target method context"
    using normalized_accepted [of s target "method"
        "if truthy target then target else Obj (self s)"
        "lookup_method s (if truthy target then target else Obj (self s)) name" key "context"]
      normalized_rejected [of s target "method"
        "if truthy target then target else Obj (self s)"
        "lookup_method s (if truthy target then target else Obj (self s)) name" key "context"]
    by (simp del: if_split cong: if_cong)
next
  assume a: "method \<noteq> Undefined \<and> (\<forall>name. method \<noteq> Str name)"
  then have "normalize_observer s target method =
      (if truthy target then target else Obj (self s), method)"
    by (cases "method") (simp_all add: normalize_observer_def)
  then show "if truthy method
       then accepted s key target method context
              (if truthy target then target else Obj (self s)) method
       else rejected s key target method context"
    using normalized_accepted [of s target "method"
        "if truthy target then target else Obj (self s)" "method" key "context"]
      normalized_rejected [of s target "method"
        "if truthy target then target else Obj (self s)" "method" key "context"]
    by (simp del: if_split cong: if_cong)
qed

theorem observer_without_method_throws_witness:
  "rejected named ''k'' Undefined Undefined Undefined \<and>
   accepted named ''k'' (Obj 7) Undefined Undefined (Obj 0) (Obj 7) \<and>
   rejected named ''k'' (Str ''missing'') Undefined Undefined \<and>
   accepted named ''k'' (Str ''toString'') Undefined Undefined (Obj 0) (Fn 105) \<and>
   rejected named ''k'' (Obj 7) (Str ''missing'') Undefined \<and>
   accepted named ''k'' (Obj 7) (Str ''name'') Undefined (Obj 7) (Str ''Bob'') \<and>
   accepted named ''k'' (Fn 3) (Str ''call'') Undefined (Fn 3) (Fn 111) \<and>
   rejected named ''k'' (Obj 7) Null Undefined \<and>
   accepted named ''k.path'' (Obj 7) (Fn 3) Undefined (Obj 7) (Fn 3)"
proof -
  have self: "self named = 0" by (simp add: named_def new_obj_def)
  have p1: "props named ''missing'' = Undefined" by (simp add: named_def new_obj_def)
  have p2: "props named ''toString'' = Fn 105" by (simp add: named_def new_obj_def)
  have h1: "lookup_method named (Obj 7) ''missing'' = Undefined"
    by (simp add: lookup_method_def named_def new_obj_def)
  have h2: "lookup_method named (Obj 7) ''name'' = Str ''Bob''"
    by (simp add: lookup_method_def named_def new_obj_def)
  have h3: "lookup_method named (Fn 3) ''call'' = Fn 111"
    by (simp add: lookup_method_def named_def new_obj_def)
  have a: "rejected named ''k'' Undefined Undefined Undefined"
    using observer_without_method_throws [of Undefined Undefined named "''k''" Undefined]
    by simp
  have b: "accepted named ''k'' (Obj 7) Undefined Undefined (Obj 0) (Obj 7)"
    using observer_without_method_throws [of Undefined "Obj 7" named "''k''" Undefined]
    by (simp add: self)
  have c: "rejected named ''k'' (Str ''missing'') Undefined Undefined"
    using observer_without_method_throws
      [of Undefined "Str ''missing''" named "''k''" Undefined "''missing''"]
    by (simp add: p1)
  have d: "accepted named ''k'' (Str ''toString'') Undefined Undefined (Obj 0) (Fn 105)"
    using observer_without_method_throws
      [of Undefined "Str ''toString''" named "''k''" Undefined "''toString''"]
    by (simp add: p2 self)
  have e: "rejected named ''k'' (Obj 7) (Str ''missing'') Undefined"
    using observer_without_method_throws
      [of "Str ''missing''" "Obj 7" named "''k''" Undefined "''missing''"]
    by (simp add: h1)
  have f: "accepted named ''k'' (Obj 7) (Str ''name'') Undefined (Obj 7) (Str ''Bob'')"
    using observer_without_method_throws
      [of "Str ''name''" "Obj 7" named "''k''" Undefined "''name''"]
    by (simp add: h2)
  have g: "accepted named ''k'' (Fn 3) (Str ''call'') Undefined (Fn 3) (Fn 111)"
    using observer_without_method_throws
      [of "Str ''call''" "Fn 3" named "''k''" Undefined "''call''"]
    by (simp add: h3)
  have h: "rejected named ''k'' (Obj 7) Null Undefined"
    using observer_without_method_throws [of Null "Obj 7" named "''k''" Undefined]
    by simp
  have i: "accepted named ''k.path'' (Obj 7) (Fn 3) Undefined (Obj 7) (Fn 3)"
    using observer_without_method_throws [of "Fn 3" "Obj 7" named "''k.path''" Undefined]
    by simp
  from a b c d e f g h i show ?thesis by blast
qed

end
